theory Spec2Isabelle
  imports Main "HOL-Library.Signed_Division" "HOL-Library.Product_Lexorder" "HOL-Library.Multiset"
begin

section \<open>Numbers of the source language\<close>

text \<open>
  The timeline algorithms compute with the numbers of TypeScript, which are binary64
  floating-point numbers. The day arithmetic only adds, subtracts, multiplies and
  compares whole numbers, so a number is modelled as an unbounded integer, or as
  \<open>NaN\<close>, which the source really produces: reading an array past its end gives
  \<open>undefined\<close>, and adding \<open>undefined\<close> to a number gives \<open>NaN\<close>.

  Every whole number from \<open>-2^53\<close> to \<open>2^53\<close> is a binary64 number, and a sum, a
  difference or a product of two of them that lies in this range is computed exactly by
  the source. So the integer arithmetic below is the arithmetic of the source as long as
  no value leaves the range; beyond it the source rounds (\<open>binary64\<close> below), and a
  statement that would fail there carries the bound as a hypothesis. Fractional numbers
  are outside the model.
\<close>

datatype jsnum = Fin int | NaN

fun js_add :: "jsnum \<Rightarrow> jsnum \<Rightarrow> jsnum" where
  "js_add (Fin a) (Fin b) = Fin (a + b)"
| "js_add _ _ = NaN"

fun js_sub :: "jsnum \<Rightarrow> jsnum \<Rightarrow> jsnum" where
  "js_sub (Fin a) (Fin b) = Fin (a - b)"
| "js_sub _ _ = NaN"

text \<open>Every comparison with \<open>NaN\<close> is false.\<close>

fun js_lt :: "jsnum \<Rightarrow> jsnum \<Rightarrow> bool" where
  "js_lt (Fin a) (Fin b) = (a < b)"
| "js_lt _ _ = False"

definition js_gt :: "jsnum \<Rightarrow> jsnum \<Rightarrow> bool" where
  "js_gt a b = js_lt b a"

fun js_ge :: "jsnum \<Rightarrow> jsnum \<Rightarrow> bool" where
  "js_ge (Fin a) (Fin b) = (a \<ge> b)"
| "js_ge _ _ = False"

fun is_fin :: "jsnum \<Rightarrow> bool" where
  "is_fin (Fin _) = True"
| "is_fin NaN = False"

fun the_fin :: "jsnum \<Rightarrow> int" where
  "the_fin (Fin a) = a"
| "the_fin NaN = 0"

text \<open>
  \<open>xs[i]\<close>: the element, or \<open>undefined\<close> (here \<open>None\<close>) when \<open>i\<close> is not an index
  of the array.
\<close>

definition arr_get :: "'a list \<Rightarrow> int \<Rightarrow> 'a option" where
  "arr_get xs i = (if 0 \<le> i \<and> i < int (length xs) then Some (xs ! nat i) else None)"

text \<open>The conversion applied by \<open>+=\<close> to its right operand: \<open>undefined\<close> becomes \<open>NaN\<close>.\<close>

definition to_number :: "int option \<Rightarrow> jsnum" where
  "to_number v = (case v of None \<Rightarrow> NaN | Some n \<Rightarrow> Fin n)"

text \<open>\<open>v ?? dflt\<close>\<close>

definition nullish :: "'a option \<Rightarrow> 'a \<Rightarrow> 'a" where
  "nullish v dflt = (case v of None \<Rightarrow> dflt | Some x \<Rightarrow> x)"

text \<open>
  The distance between neighbouring binary64 numbers around a whole number of magnitude
  \<open>n\<close>: 1 below \<open>2^53\<close>, 2 from \<open>2^53\<close> to \<open>2^54\<close>, and so on, doubling with
  every further binary digit.
\<close>

function spacing :: "int \<Rightarrow> int" where
  "spacing n = (if n < 2 ^ 53 then 1 else 2 * spacing (n div 2))"
  by pat_completeness auto
termination
  by (relation "measure nat") auto

text \<open>
  The binary64 number that the source holds for the exact whole-number result \<open>n\<close> of an
  operation: the nearest multiple of the spacing, and of two equally near ones the one
  with the even multiplier. Results from \<open>2^1024\<close> on, which the source holds as an
  infinity, are not considered.
\<close>

definition binary64 :: "int \<Rightarrow> int" where
  "binary64 n =
     (let u = spacing \<bar>n\<bar>; q = n div u; r = n mod u
      in if 2 * r < u \<or> (2 * r = u \<and> even q) then q * u else (q + 1) * u)"

section \<open>Calendar arithmetic\<close>

text \<open>
  \<open>(Y % 4 === 0 && Y % 100 !== 0) || (Y % 400 === 0)\<close>. The remainder of the source
  takes the sign of the dividend, which is \<open>smod\<close>.
\<close>

definition isLeap :: "int \<Rightarrow> bool" where
  "isLeap Y = ((Y smod 4 = 0 \<and> Y smod 100 \<noteq> 0) \<or> Y smod 400 = 0)"

definition yearLength :: "int \<Rightarrow> int" where
  "yearLength i = (if isLeap i then 366 else 365)"

definition monthTable :: "bool \<Rightarrow> int list" where
  "monthTable leap = [31, if leap then 29 else 28, 31, 30, 31, 30, 31, 31, 30, 31, 30, 31]"

text \<open>
  \<open>for (let i = 0; i < Y; i++) days += leap(i) ? 366 : 365\<close>. Counter and sum are
  exact in the source as long as the sum stays within \<open>2^53\<close>.
\<close>

function to_year_loop :: "int \<Rightarrow> int \<Rightarrow> int \<Rightarrow> int" where
  "to_year_loop i Y days =
     (if i < Y then to_year_loop (i + 1) Y (days + yearLength i) else days)"
  by pat_completeness auto
termination
  by (relation "measure (\<lambda>(i, Y, days). nat (Y - i))") auto

text \<open>
  \<open>for (let j = 1; j < M; j++) days += monthDays[j - 1]\<close>. The table has twelve
  entries, so from \<open>j = 13\<close> on the read is \<open>undefined\<close> and the sum is \<open>NaN\<close>.
\<close>

function to_month_loop :: "int \<Rightarrow> int \<Rightarrow> int list \<Rightarrow> jsnum \<Rightarrow> jsnum" where
  "to_month_loop j M monthDays days =
     (if j < M
      then to_month_loop (j + 1) M monthDays (js_add days (to_number (arr_get monthDays (j - 1))))
      else days)"
  by pat_completeness auto
termination
  by (relation "measure (\<lambda>(j, M, monthDays, days). nat (M - j))") auto

definition toAbsoluteDay :: "int \<Rightarrow> int \<Rightarrow> int \<Rightarrow> jsnum" where
  "toAbsoluteDay y m d =
     (let monthDays = monthTable (isLeap y);
          days = Fin (to_year_loop 0 y 0);
          days = to_month_loop 1 m monthDays days
      in js_add days (Fin (d - 1)))"

text \<open>
  \<open>for (let j = 1; j < M; j++) days += months[j - 1] ?? 30\<close>
\<close>

function to_month_loop_dflt :: "int \<Rightarrow> int \<Rightarrow> int list \<Rightarrow> int \<Rightarrow> int" where
  "to_month_loop_dflt j M months days =
     (if j < M
      then to_month_loop_dflt (j + 1) M months (days + nullish (arr_get months (j - 1)) 30)
      else days)"
  by pat_completeness auto
termination
  by (relation "measure (\<lambda>(j, M, months, days). nat (M - j))") auto

definition toAbsoluteDayWithMonths :: "int \<Rightarrow> int \<Rightarrow> int \<Rightarrow> int list \<Rightarrow> int" where
  "toAbsoluteDayWithMonths y m d months =
     (let yearDays = fold (\<lambda>b a. a + b) months 0;
          days = y * yearDays;
          days = to_month_loop_dflt 1 m months days;
          mdCur = nullish (arr_get months (m - 1)) 30;
          dClamped = max 1 (min mdCur d)
      in days + (dClamped - 1))"

text \<open>
  \<open>toAbsoluteDayWithMonths\<close> once more, with every result of an addition, a subtraction
  or a multiplication rounded as the source rounds it. The arguments are binary64
  numbers themselves. Beyond \<open>2^53\<close> the counter \<open>j++\<close> no longer moves, and a loop
  that never ends is the value \<open>None\<close>.
\<close>

partial_function (option) to_month_loop_dflt64 :: "int \<Rightarrow> int \<Rightarrow> int list \<Rightarrow> int \<Rightarrow> int option" where
  "to_month_loop_dflt64 j M months days =
     (if j < M
      then to_month_loop_dflt64 (binary64 (j + 1)) M months
             (binary64 (days + nullish (arr_get months (binary64 (j - 1))) 30))
      else Some days)"

definition toAbsoluteDayWithMonths64 :: "int \<Rightarrow> int \<Rightarrow> int \<Rightarrow> int list \<Rightarrow> int option" where
  "toAbsoluteDayWithMonths64 y m d months =
     (let yearDays = fold (\<lambda>b a. binary64 (a + b)) months 0;
          days = binary64 (y * yearDays)
      in case to_month_loop_dflt64 1 m months days of
           None \<Rightarrow> None
         | Some days \<Rightarrow>
             (let mdCur = nullish (arr_get months (binary64 (m - 1))) 30;
                  dClamped = max 1 (min mdCur d)
              in Some (binary64 (days + binary64 (dClamped - 1)))))"

text \<open>
  The year loop of \<open>fromAbsoluteDay\<close>:
  \<open>while (true) { if (day < yearDays(y)) break; day -= yearDays(y); y++; }\<close>.
  For \<open>NaN\<close> the test is false at every round and the loop never ends; not returning
  is the value \<open>None\<close>.
\<close>

partial_function (option) from_year_loop :: "jsnum \<Rightarrow> int \<Rightarrow> (int \<times> int) option" where
  "from_year_loop day y =
     (case day of
        Fin k \<Rightarrow> if k < yearLength y then Some (k, y)
                 else from_year_loop (Fin (k - yearLength y)) (y + 1)
      | NaN \<Rightarrow> from_year_loop NaN (y + 1))"

text \<open>
  The month loop of both inverse conversions:
  \<open>for (let i = 0; i < md.length; i++) { if (day < md[i]) { m = i + 1; break; } day -= md[i]; }\<close>,
  returning the final \<open>(m, day)\<close>.
\<close>

function from_month_loop :: "int list \<Rightarrow> nat \<Rightarrow> int \<Rightarrow> int \<Rightarrow> int \<times> int" where
  "from_month_loop md i m day =
     (if i < length md
      then (if day < md ! i then (int i + 1, day)
            else from_month_loop md (i + 1) m (day - md ! i))
      else (m, day))"
  by pat_completeness auto
termination
  by (relation "measure (\<lambda>(md, i, m, day). length md - i)") auto

definition fromAbsoluteDay :: "jsnum \<Rightarrow> (int \<times> int \<times> int) option" where
  "fromAbsoluteDay yday =
     (case from_year_loop yday 0 of
        None \<Rightarrow> None
      | Some (day, y) \<Rightarrow>
          (let md = monthTable (isLeap y);
               (m, day) = from_month_loop md 0 1 day
           in Some (y, m, day + 1)))"


section \<open>Parsing a date\<close>

text \<open>
  The polymorphic value of the host: a list of values, a string, a number, or any other
  shape. A \<open>NumberValue\<close> carries the number that \<open>Number(value.toString())\<close> gives
  back, \<open>NaN\<close> standing for every number that is not finite. Strings are sequences of
  code units below 256.
\<close>

datatype Value = ListValue "Value list" | StringValue string | NumberValue jsnum | OtherValue

text \<open>The white space of \<open>\s\<close>, of \<open>trim\<close> and of \<open>parseInt\<close>.\<close>

definition is_space :: "char \<Rightarrow> bool" where
  "is_space c = (c \<in> set [CHR 0x09, CHR 0x0A, CHR 0x0B, CHR 0x0C, CHR 0x0D, CHR 0x20, CHR 0xA0])"

definition is_digit :: "char \<Rightarrow> bool" where
  "is_digit c = (c \<in> set ''0123456789'')"

definition trim :: "string \<Rightarrow> string" where
  "trim s = rev (dropWhile is_space (rev (dropWhile is_space s)))"

text \<open>\<open>s.replace(/\[|\]|\(|\)|\{|\}/g, '')\<close>\<close>

definition strip_brackets :: "string \<Rightarrow> string" where
  "strip_brackets s = filter (\<lambda>c. c \<notin> set ''[](){}'') s"

text \<open>The separators of \<open>/[\s,\/\-]+/\<close>.\<close>

definition is_sep :: "char \<Rightarrow> bool" where
  "is_sep c = (is_space c \<or> c \<in> set '',/-'')"

text \<open>
  \<open>s.split(/[\s,\/\-]+/)\<close>: the pieces between the maximal runs of separators; a
  string that starts or ends with a separator has an empty first or last piece.
\<close>

function split_runs :: "string \<Rightarrow> string \<Rightarrow> string list" where
  "split_runs cur [] = [cur]"
| "split_runs cur (c # cs) =
     (if is_sep c then cur # split_runs [] (dropWhile is_sep cs)
      else split_runs (cur @ [c]) cs)"
  by pat_completeness auto
termination
  by (relation "measure (\<lambda>(cur, s). length s)") (auto simp: length_dropWhile_le less_Suc_eq_le)

definition split_seps :: "string \<Rightarrow> string list" where
  "split_seps s = split_runs [] s"

definition digits_value :: "string \<Rightarrow> int" where
  "digits_value ds = fold (\<lambda>c n. 10 * n + (int (of_char c) - 48)) ds 0"

text \<open>
  \<open>parseInt(s, 10)\<close>: leading white space is skipped, one sign is read, and the longest
  run of decimal digits that follows is the number; what comes after the digits is
  ignored. With no digit there the result is \<open>NaN\<close>. The number is the exact value of
  the digits, which is what the source returns for values up to \<open>2^53\<close>; a larger value
  the source rounds, and from about \<open>1.8 * 10^308\<close> on it returns an infinity.
\<close>

definition parseInt :: "string \<Rightarrow> jsnum" where
  "parseInt s =
     (let s1 = dropWhile is_space s;
          (sign, s2) = (case s1 of
                          [] \<Rightarrow> (1, s1)
                        | c # r \<Rightarrow> if c = CHR ''-'' then (- 1, r)
                                   else if c = CHR ''+'' then (1, r) else (1, s1));
          ds = takeWhile is_digit s2
      in if ds = [] then NaN else Fin (sign * digits_value ds))"

text \<open>
  \<open>Number.isFinite(n) ? n : null\<close>. The elements of a list value are values of the
  host, so the two branches of the source for bare numbers and strings are never taken.
\<close>

definition finite_or_null :: "jsnum \<Rightarrow> int option" where
  "finite_or_null n = (case n of Fin k \<Rightarrow> Some k | NaN \<Rightarrow> None)"

fun parseComponent :: "Value \<Rightarrow> int option" where
  "parseComponent (NumberValue n) = finite_or_null n"
| "parseComponent (StringValue s) = finite_or_null (parseInt s)"
| "parseComponent _ = None"

fun parseYearMonthDay :: "Value option \<Rightarrow> (int \<times> int \<times> int) option" where
  "parseYearMonthDay None = None"
| "parseYearMonthDay (Some (ListValue vs)) =
     (if length vs \<ge> 3
      then (case (parseComponent (vs ! 0), parseComponent (vs ! 1), parseComponent (vs ! 2)) of
              (Some y, Some m, Some d) \<Rightarrow> Some (y, m, d)
            | _ \<Rightarrow> None)
      else None)"
| "parseYearMonthDay (Some (StringValue str)) =
     (let s = trim str;
          parts = filter (\<lambda>p. p \<noteq> []) (split_seps (strip_brackets s))
      in if length parts \<ge> 3
         then (case (parseInt (parts ! 0), parseInt (parts ! 1), parseInt (parts ! 2)) of
                 (Fin y, Fin m, Fin d) \<Rightarrow> Some (y, m, d)
               | _ \<Rightarrow> None)
         else None)"
| "parseYearMonthDay (Some (NumberValue n)) =
     (case n of
        NaN \<Rightarrow> None
      | Fin k \<Rightarrow>
          (let y = k div 10000;
               m = (k smod 10000) div 100;
               d = k smod 100
           in if y \<noteq> 0 \<and> m \<noteq> 0 \<and> d \<noteq> 0 then Some (y, m, d) else None))"
| "parseYearMonthDay (Some OtherValue) = None"

section \<open>Building the items\<close>

text \<open>
  A record of the host: its identity string \<open>entry.file.path\<close> and its property
  lookup, which returns a value or nothing. The lookup is taken to return without
  throwing, so the \<open>try\<close> blocks of the builder have nothing to catch. The index of an
  item is a whole number or absent; fractional indices are outside the model.
\<close>

record BasesEntry =
  path :: string
  getValue :: "string \<Rightarrow> Value option"

record NormalizedDateRange =
  startDay :: jsnum
  endDay :: jsnum

record TimelineItem =
  entry :: BasesEntry
  range' :: NormalizedDateRange
  indexValue :: "int option"

text \<open>
  A property identifier is a string or \<open>null\<close>; \<open>if (!prop)\<close> also rejects the empty
  string.
\<close>

definition prop_set :: "string option \<Rightarrow> bool" where
  "prop_set p = (case p of None \<Rightarrow> False | Some s \<Rightarrow> s \<noteq> [])"

text \<open>
  \<open>calendarMonths && calendarMonths.length > 0 ? toAbsoluteDayWithMonths(..) : toAbsoluteDay(..)\<close>
\<close>

definition absoluteDayOf :: "int list option \<Rightarrow> int \<times> int \<times> int \<Rightarrow> jsnum" where
  "absoluteDayOf calendarMonths ymd =
     (case ymd of (y, m, d) \<Rightarrow>
        (case calendarMonths of
           None \<Rightarrow> toAbsoluteDay y m d
         | Some months \<Rightarrow>
             if length months > 0 then Fin (toAbsoluteDayWithMonths y m d months)
             else toAbsoluteDay y m d))"

definition extractDateRange ::
    "BasesEntry \<Rightarrow> string option \<Rightarrow> string option \<Rightarrow> int list option \<Rightarrow> NormalizedDateRange option" where
  "extractDateRange e startProp endProp calendarMonths =
     (if \<not> prop_set startProp then None
      else case parseYearMonthDay (getValue e (the startProp)) of
        None \<Rightarrow> None
      | Some start \<Rightarrow>
          (let startDay = absoluteDayOf calendarMonths start;
               endDay =
                 (if prop_set endProp
                  then (case parseYearMonthDay (getValue e (the endProp)) of
                          None \<Rightarrow> startDay
                        | Some end \<Rightarrow>
                            (let endDay = absoluteDayOf calendarMonths end
                             in if js_lt endDay startDay then startDay else endDay))
                  else startDay)
           in Some \<lparr>startDay = startDay, endDay = endDay\<rparr>))"

text \<open>
  What the builder asks of the host beyond the lookup: whether a value is truthy, and
  the number \<open>Number(v.toString())\<close> its text converts to (\<open>NaN\<close> for a text that is
  not a finite number).
\<close>

record Host =
  isTruthy :: "Value \<Rightarrow> bool"
  toNumber :: "Value \<Rightarrow> jsnum"

text \<open>
  The calendar of a record: the positive numeric elements of a non-empty list value, when
  there is one.
\<close>

fun positive_components :: "Value list \<Rightarrow> int list" where
  "positive_components [] = []"
| "positive_components (v # vs) =
     (case parseComponent v of
        Some n \<Rightarrow> if n > 0 then n # positive_components vs else positive_components vs
      | None \<Rightarrow> positive_components vs)"

definition calendarOf :: "BasesEntry \<Rightarrow> string option \<Rightarrow> int list option" where
  "calendarOf e calendarProp =
     (if prop_set calendarProp
      then (case getValue e (the calendarProp) of
              Some (ListValue vs) \<Rightarrow>
                if length vs > 0
                then (let arr = positive_components vs in if length arr > 0 then Some arr else None)
                else None
            | _ \<Rightarrow> None)
      else None)"

definition indexOf :: "Host \<Rightarrow> BasesEntry \<Rightarrow> string option \<Rightarrow> int option" where
  "indexOf h e indexProp =
     (if prop_set indexProp
      then (case getValue e (the indexProp) of
              None \<Rightarrow> None
            | Some v \<Rightarrow> if isTruthy h v then finite_or_null (toNumber h v) else None)
      else None)"

fun buildTimelineItems ::
    "Host \<Rightarrow> BasesEntry list \<Rightarrow> string option \<Rightarrow> string option \<Rightarrow> string option \<Rightarrow> string option
      \<Rightarrow> TimelineItem list" where
  "buildTimelineItems h [] startProp endProp indexProp calendarProp = []"
| "buildTimelineItems h (e # entries) startProp endProp indexProp calendarProp =
     (let months = calendarOf e calendarProp
      in case extractDateRange e startProp endProp months of
           None \<Rightarrow> buildTimelineItems h entries startProp endProp indexProp calendarProp
         | Some r \<Rightarrow>
             \<lparr>entry = e, range' = r, indexValue = indexOf h e indexProp\<rparr>
               # buildTimelineItems h entries startProp endProp indexProp calendarProp)"

section \<open>Sorting\<close>

text \<open>
  \<open>Array.prototype.sort\<close> with a comparator is a stable sort: an element moves behind
  another one only when the comparator, called on the two in their current order, is
  positive; a comparator result of \<open>NaN\<close> counts as 0. For a comparator that is a
  consistent ordering this determines the result, whatever algorithm the engine runs.
\<close>

fun js_insert :: "('a \<Rightarrow> 'a \<Rightarrow> jsnum) \<Rightarrow> 'a \<Rightarrow> 'a list \<Rightarrow> 'a list" where
  "js_insert cmp x [] = [x]"
| "js_insert cmp x (y # ys) =
     (if js_gt (cmp x y) (Fin 0) then y # js_insert cmp x ys else x # y # ys)"

definition js_sort :: "('a \<Rightarrow> 'a \<Rightarrow> jsnum) \<Rightarrow> 'a list \<Rightarrow> 'a list" where
  "js_sort cmp xs = foldr (js_insert cmp) xs []"

text \<open>\<open>a || b\<close> on numbers: \<open>0\<close> and \<open>NaN\<close> are falsy.\<close>

definition js_or :: "jsnum \<Rightarrow> jsnum \<Rightarrow> jsnum" where
  "js_or a b = (if a = Fin 0 \<or> a = NaN then b else a)"

definition cmp_index :: "TimelineItem \<Rightarrow> TimelineItem \<Rightarrow> jsnum" where
  "cmp_index a b = Fin (nullish (indexValue a) 0 - nullish (indexValue b) 0)"

definition cmp_date :: "TimelineItem \<Rightarrow> TimelineItem \<Rightarrow> jsnum" where
  "cmp_date a b =
     js_or (js_sub (startDay (range' a)) (startDay (range' b)))
           (js_sub (endDay (range' a)) (endDay (range' b)))"

text \<open>
  \<open>sorted\<close> is the copy \<open>[...items]\<close>, which \<open>sort\<close> then orders in place.
\<close>

definition sortByIndexOrDate :: "TimelineItem list \<Rightarrow> TimelineItem list" where
  "sortByIndexOrDate items =
     (let withIndex = list_ex (\<lambda>i. indexValue i \<noteq> None) items;
          sorted = items
      in if withIndex then js_sort cmp_index sorted else js_sort cmp_date sorted)"

section \<open>Assigning tracks\<close>

record TrackAssignmentResult =
  tracks :: "TimelineItem list list"

text \<open>
  The inner loop: the first track \<open>t\<close> with \<open>item.range.startDay > lastEnd[t]\<close> takes the
  item; \<open>None\<close> when no track does (\<open>placed\<close> stays false). A comparison with a missing
  \<open>lastEnd[t]\<close> is false.
\<close>

function place :: "TimelineItem \<Rightarrow> nat \<Rightarrow> TimelineItem list list \<Rightarrow> jsnum list
    \<Rightarrow> (TimelineItem list list \<times> jsnum list) option" where
  "place item t trks lastEnd =
     (if t < length trks
      then (if (case arr_get lastEnd (int t) of
                  None \<Rightarrow> False
                | Some e \<Rightarrow> js_gt (startDay (range' item)) e)
            then Some (trks[t := trks ! t @ [item]], lastEnd[t := endDay (range' item)])
            else place item (t + 1) trks lastEnd)
      else None)"
  by pat_completeness auto
termination
  by (relation "measure (\<lambda>(item, t, trks, lastEnd). length trks - t)") auto

fun assign_loop :: "TimelineItem list \<Rightarrow> TimelineItem list list \<Rightarrow> jsnum list
    \<Rightarrow> TimelineItem list list \<times> jsnum list" where
  "assign_loop [] trks lastEnd = (trks, lastEnd)"
| "assign_loop (item # items) trks lastEnd =
     (case place item 0 trks lastEnd of
        Some (trks', lastEnd') \<Rightarrow> assign_loop items trks' lastEnd'
      | None \<Rightarrow> assign_loop items (trks @ [[item]]) (lastEnd @ [endDay (range' item)]))"

definition assignTracks :: "TimelineItem list \<Rightarrow> TrackAssignmentResult" where
  "assignTracks items = \<lparr>tracks = fst (assign_loop items [] [])\<rparr>"

section \<open>Detecting conflicts\<close>

text \<open>
  \<open>for (let i = 0; i < dateSorted.length; i++) positionByPath.set(path(dateSorted[i]), i)\<close>:
  a later item with the same path overwrites the position of an earlier one.
\<close>

fun set_positions :: "TimelineItem list \<Rightarrow> nat \<Rightarrow> (string \<rightharpoonup> nat) \<Rightarrow> (string \<rightharpoonup> nat)" where
  "set_positions [] i positionByPath = positionByPath"
| "set_positions (x # xs) i positionByPath =
     set_positions xs (i + 1) (positionByPath(path (entry x) \<mapsto> i))"

text \<open>
  The loop over the display-adjacent pairs \<open>(items[i - 1], items[i])\<close>, \<open>i\<close> from 1 on.
\<close>

fun conflict_loop :: "(string \<rightharpoonup> nat) \<Rightarrow> TimelineItem list \<Rightarrow> string set \<Rightarrow> string set" where
  "conflict_loop positionByPath (prv # cur # others) conflicts =
     (let pPrev = nullish (positionByPath (path (entry prv))) 0;
          pCurr = nullish (positionByPath (path (entry cur))) 0
      in conflict_loop positionByPath (cur # others)
           (if pCurr < pPrev
            then insert (path (entry cur)) (insert (path (entry prv)) conflicts)
            else conflicts))"
| "conflict_loop positionByPath _ conflicts = conflicts"

definition detectIndexConflicts :: "TimelineItem list \<Rightarrow> string set" where
  "detectIndexConflicts items =
     (if length items \<le> 1 then {}
      else (let dateSorted = js_sort cmp_date items;
                positionByPath = set_positions dateSorted 0 Map.empty
            in conflict_loop positionByPath items {}))"

section \<open>Notions used in the statements\<close>

text \<open>
  The length of month \<open>m\<close> of year \<open>y\<close> that the specification calls
  \<open>daysInMonth(y, m)\<close>: the entry of the month table both conversions use.
\<close>

definition daysInMonth :: "int \<Rightarrow> int \<Rightarrow> int" where
  "daysInMonth y m = monthTable (isLeap y) ! nat (m - 1)"

text \<open>An item over a record without properties, for the examples.\<close>

definition item_of :: "string \<Rightarrow> jsnum \<Rightarrow> jsnum \<Rightarrow> int option \<Rightarrow> TimelineItem" where
  "item_of p s e ix =
     \<lparr>entry = \<lparr>path = p, getValue = (\<lambda>_. None)\<rparr>, range' = \<lparr>startDay = s, endDay = e\<rparr>,
      indexValue = ix\<rparr>"

text \<open>
  The relation every track keeps between an item and the next one, and the invariant of the
  track loop: \<open>lastEnd[t]\<close> is the end day of the last item of track \<open>t\<close>.
\<close>

definition follows :: "TimelineItem \<Rightarrow> TimelineItem \<Rightarrow> bool" where
  "follows prv nxt = js_gt (startDay (range' nxt)) (endDay (range' prv))"

definition tracks_inv :: "TimelineItem list list \<Rightarrow> jsnum list \<Rightarrow> bool" where
  "tracks_inv trks lastEnd =
     (length lastEnd = length trks \<and>
      (\<forall>t < length trks. trks ! t \<noteq> [] \<and> lastEnd ! t = endDay (range' (last (trks ! t))) \<and>
          successively follows (trks ! t)))"

text \<open>A display-adjacent pair that the conflict loop flags.\<close>

definition inverted :: "(string \<rightharpoonup> nat) \<Rightarrow> TimelineItem \<Rightarrow> TimelineItem \<Rightarrow> bool" where
  "inverted pos prv cur = (nullish (pos (path (entry cur))) 0 < nullish (pos (path (entry prv))) 0)"

text \<open>
  The chronological sort key of an item whose days are numbers, and the pairs the date
  comparator puts the other way round.
\<close>

definition dateKey :: "TimelineItem \<Rightarrow> int \<times> int" where
  "dateKey i = (the_fin (startDay (range' i)), the_fin (endDay (range' i)))"

definition numeric_days :: "TimelineItem \<Rightarrow> bool" where
  "numeric_days i = (is_fin (startDay (range' i)) \<and> is_fin (endDay (range' i)))"

definition inverted_pair :: "TimelineItem \<Rightarrow> TimelineItem \<Rightarrow> bool" where
  "inverted_pair a b = js_gt (cmp_date a b) (Fin 0)"

text \<open>
  The tokens of a date string in the words of the specification: the bracket characters
  are removed, and the tokens are the maximal runs of characters that are not separators.
\<close>

function runs_between :: "string \<Rightarrow> string list" where
  "runs_between s =
     (case dropWhile is_sep s of
        [] \<Rightarrow> []
      | c # r \<Rightarrow> takeWhile (\<lambda>x. \<not> is_sep x) (c # r) # runs_between (dropWhile (\<lambda>x. \<not> is_sep x) (c # r)))"
  by pat_completeness auto
termination
proof (relation "measure length", goal_cases)
  case 1
  then show ?case by simp
next
  case (2 s c r)
  have "\<not> is_sep c" using 2 by (metis hd_dropWhile list.distinct(1) list.sel(1))
  then have "length (dropWhile (\<lambda>x. \<not> is_sep x) (c # r)) \<le> length r"
    by (simp add: length_dropWhile_le)
  moreover have "length (c # r) \<le> length s"
    using 2 length_dropWhile_le [of is_sep s] by simp
  ultimately show ?case by simp
qed

definition date_tokens :: "string \<Rightarrow> string list" where
  "date_tokens str = runs_between (filter (\<lambda>c. c \<notin> set ''[](){}'') str)"

text \<open>
  The number a token starts with: after an optional \<open>+\<close>, its leading decimal digits.
\<close>

definition leading_int :: "string \<Rightarrow> int option" where
  "leading_int t =
     (let r = (case t of [] \<Rightarrow> [] | c # r \<Rightarrow> if c = CHR ''+'' then r else t);
          ds = takeWhile is_digit r
      in if ds = [] then None else Some (digits_value ds))"

text \<open>A token that is a decimal numeral from its first to its last character.\<close>

definition decimal_numeral :: "string \<Rightarrow> bool" where
  "decimal_numeral t =
     (case t of
        [] \<Rightarrow> False
      | c # r \<Rightarrow> if c = CHR ''+'' \<or> c = CHR ''-'' then r \<noteq> [] \<and> list_all is_digit r
                 else list_all is_digit t)"

text \<open>A token whose leading digits, if it has any, form a number of at most \<open>2^53\<close>.\<close>

definition small_token :: "string \<Rightarrow> bool" where
  "small_token t = (case leading_int t of None \<Rightarrow> True | Some v \<Rightarrow> v \<le> 2 ^ 53)"

text \<open>A record at path \<open>p\<close> whose property \<open>note.start\<close> is the string \<open>s\<close>.\<close>

definition dated_entry :: "string \<Rightarrow> string \<Rightarrow> BasesEntry" where
  "dated_entry p s =
     \<lparr>path = p,
      getValue = (\<lambda>q. if q = ''note.start'' then Some (StringValue s) else None)\<rparr>"

section \<open>The operations on a store\<close>

text \<open>
  To speak of what an operation changes, the arrays and objects of the source live in a
  store, at addresses; \<open>free\<close> is the first address not yet in use. An array of items
  holds the addresses of its items, so an operation that wrote to an item or to the array
  it was given would show in the store.
\<close>

type_synonym addr = nat

datatype obj =
    EntryObj BasesEntry
  | ItemObj TimelineItem
  | RefArray "addr list"
  | NumArray "jsnum list"
  | StringSet "string set"
  | PositionMap "string \<rightharpoonup> nat"
  | TracksObj addr

record store =
  objs :: "addr \<rightharpoonup> obj"
  free :: addr

text \<open>
  \<open>alloc\<close> is every expression of the source that makes a new object (\<open>[]\<close>,
  \<open>[...items]\<close>, \<open>[item]\<close>, \<open>new Set\<close>, \<open>new Map\<close>, an object literal); \<open>put\<close> is every
  write into an existing one (\<open>sort\<close>, \<open>push\<close>, \<open>lastEnd[t] = ..\<close>, \<open>set\<close>, \<open>add\<close>).
\<close>

definition alloc :: "store \<Rightarrow> obj \<Rightarrow> addr \<times> store" where
  "alloc h v = (free h, h\<lparr>objs := (objs h)(free h \<mapsto> v), free := Suc (free h)\<rparr>)"

definition put :: "store \<Rightarrow> addr \<Rightarrow> obj \<Rightarrow> store" where
  "put h a v = h\<lparr>objs := (objs h)(a \<mapsto> v)\<rparr>"

text \<open>
  Reading the store. \<open>None\<close> says that the address does not hold an object of the kind
  the types of the source promise; an operation given such an address returns \<open>None\<close>.
\<close>

definition ref_array :: "store \<Rightarrow> addr \<Rightarrow> addr list option" where
  "ref_array h a = (case objs h a of Some (RefArray rs) \<Rightarrow> Some rs | _ \<Rightarrow> None)"

definition num_array :: "store \<Rightarrow> addr \<Rightarrow> jsnum list option" where
  "num_array h a = (case objs h a of Some (NumArray ns) \<Rightarrow> Some ns | _ \<Rightarrow> None)"

definition item_at :: "store \<Rightarrow> addr \<Rightarrow> TimelineItem option" where
  "item_at h a = (case objs h a of Some (ItemObj i) \<Rightarrow> Some i | _ \<Rightarrow> None)"

definition entry_at :: "store \<Rightarrow> addr \<Rightarrow> BasesEntry option" where
  "entry_at h a = (case objs h a of Some (EntryObj e) \<Rightarrow> Some e | _ \<Rightarrow> None)"

definition string_set :: "store \<Rightarrow> addr \<Rightarrow> string set option" where
  "string_set h a = (case objs h a of Some (StringSet s) \<Rightarrow> Some s | _ \<Rightarrow> None)"

fun deref_all :: "(addr \<Rightarrow> 'a option) \<Rightarrow> addr list \<Rightarrow> 'a list option" where
  "deref_all f [] = Some []"
| "deref_all f (r # rs) =
     (case f r of None \<Rightarrow> None | Some x \<Rightarrow> map_option ((#) x) (deref_all f rs))"

definition items_of :: "store \<Rightarrow> addr \<Rightarrow> TimelineItem list option" where
  "items_of h a = (case ref_array h a of None \<Rightarrow> None | Some rs \<Rightarrow> deref_all (item_at h) rs)"

definition entries_of :: "store \<Rightarrow> addr \<Rightarrow> BasesEntry list option" where
  "entries_of h a = (case ref_array h a of None \<Rightarrow> None | Some rs \<Rightarrow> deref_all (entry_at h) rs)"

definition tracks_of :: "store \<Rightarrow> addr \<Rightarrow> TimelineItem list list option" where
  "tracks_of h a =
     (case objs h a of
        Some (TracksObj T) \<Rightarrow>
          (case ref_array h T of None \<Rightarrow> None | Some ts \<Rightarrow> deref_all (items_of h) ts)
      | _ \<Rightarrow> None)"

text \<open>
  The operations, statement by statement. A loop that fills one object made in the same
  call (the in-place sort of the copy, the position map, the conflict set) is one \<open>put\<close>
  of what the loop leaves in it. The \<open>for .. of\<close> loops read the array they run over
  once: their bodies write only to objects made in the same call.
\<close>

definition sortByIndexOrDate_st :: "store \<Rightarrow> addr \<Rightarrow> (addr \<times> store) option" where
  "sortByIndexOrDate_st h items =
     (case ref_array h items of
        None \<Rightarrow> None
      | Some rs \<Rightarrow>
          (case deref_all (item_at h) rs of
             None \<Rightarrow> None
           | Some its \<Rightarrow>
               (let withIndex = list_ex (\<lambda>i. indexValue i \<noteq> None) its;
                    (sorted, h) = alloc h (RefArray rs);
                    cmp = (if withIndex then cmp_index else cmp_date);
                    h = put h sorted
                          (RefArray (map fst (js_sort (\<lambda>a b. cmp (snd a) (snd b)) (zip rs its))))
                in Some (sorted, h))))"

function place_st :: "store \<Rightarrow> addr \<Rightarrow> TimelineItem \<Rightarrow> nat \<Rightarrow> addr \<Rightarrow> addr \<Rightarrow> (bool \<times> store) option" where
  "place_st h r item t T L =
     (case (ref_array h T, num_array h L) of
        (Some ts, Some ends) \<Rightarrow>
          if t < length ts
          then (if (case arr_get ends (int t) of
                      None \<Rightarrow> False
                    | Some e \<Rightarrow> js_gt (startDay (range' item)) e)
                then (case ref_array h (ts ! t) of
                        None \<Rightarrow> None
                      | Some tr \<Rightarrow>
                          Some (True, put (put h (ts ! t) (RefArray (tr @ [r])))
                                          L (NumArray (ends[t := endDay (range' item)]))))
                else place_st h r item (t + 1) T L)
          else Some (False, h)
      | _ \<Rightarrow> None)"
  by pat_completeness auto
termination
  apply (relation "measure (\<lambda>(h, r, item, t, T, L). length (the (ref_array h T)) - t)")
   apply simp
  apply auto
  apply (drule sym)
  apply simp
  done

fun assign_st :: "store \<Rightarrow> addr list \<Rightarrow> addr \<Rightarrow> addr \<Rightarrow> store option" where
  "assign_st h [] T L = Some h"
| "assign_st h (r # rs) T L =
     (case item_at h r of
        None \<Rightarrow> None
      | Some item \<Rightarrow>
          (case place_st h r item 0 T L of
             None \<Rightarrow> None
           | Some (placed, h1) \<Rightarrow>
               if placed then assign_st h1 rs T L
               else (case (ref_array h1 T, num_array h1 L) of
                       (Some ts, Some ends) \<Rightarrow>
                         (let (n, h2) = alloc h1 (RefArray [r]);
                              h3 = put h2 T (RefArray (ts @ [n]));
                              h4 = put h3 L (NumArray (ends @ [endDay (range' item)]))
                          in assign_st h4 rs T L)
                     | _ \<Rightarrow> None)))"

definition assignTracks_st :: "store \<Rightarrow> addr \<Rightarrow> (addr \<times> store) option" where
  "assignTracks_st h items =
     (case ref_array h items of
        None \<Rightarrow> None
      | Some rs \<Rightarrow>
          (let (T, h) = alloc h (RefArray []);
               (L, h) = alloc h (NumArray [])
           in case assign_st h rs T L of
                None \<Rightarrow> None
              | Some h \<Rightarrow> Some (alloc h (TracksObj T))))"

definition detectIndexConflicts_st :: "store \<Rightarrow> addr \<Rightarrow> (addr \<times> store) option" where
  "detectIndexConflicts_st h items =
     (case ref_array h items of
        None \<Rightarrow> None
      | Some rs \<Rightarrow>
          (case deref_all (item_at h) rs of
             None \<Rightarrow> None
           | Some its \<Rightarrow>
               (let (conflicts, h) = alloc h (StringSet {})
                in if length rs \<le> 1 then Some (conflicts, h)
                   else (let (dateSorted, h) = alloc h (RefArray rs);
                             sorted = js_sort (\<lambda>a b. cmp_date (snd a) (snd b)) (zip rs its);
                             h = put h dateSorted (RefArray (map fst sorted));
                             (positionByPath, h) = alloc h (PositionMap Map.empty);
                             positions = set_positions (map snd sorted) 0 Map.empty;
                             h = put h positionByPath (PositionMap positions);
                             h = put h conflicts (StringSet (conflict_loop positions its {}))
                         in Some (conflicts, h)))))"

fun build_st :: "Host \<Rightarrow> store \<Rightarrow> addr list \<Rightarrow> string option \<Rightarrow> string option \<Rightarrow> string option
    \<Rightarrow> string option \<Rightarrow> addr \<Rightarrow> store option" where
  "build_st host h [] startProp endProp indexProp calendarProp items = Some h"
| "build_st host h (r # rs) startProp endProp indexProp calendarProp items =
     (case entry_at h r of
        None \<Rightarrow> None
      | Some e \<Rightarrow>
          (let months = calendarOf e calendarProp
           in case extractDateRange e startProp endProp months of
                None \<Rightarrow> build_st host h rs startProp endProp indexProp calendarProp items
              | Some rng \<Rightarrow>
                  (case ref_array h items of
                     None \<Rightarrow> None
                   | Some out \<Rightarrow>
                       (let (i, h) = alloc h (ItemObj \<lparr>entry = e, range' = rng,
                                                       indexValue = indexOf host e indexProp\<rparr>);
                            h = put h items (RefArray (out @ [i]))
                        in build_st host h rs startProp endProp indexProp calendarProp items))))"

definition buildTimelineItems_st :: "Host \<Rightarrow> string option \<Rightarrow> string option \<Rightarrow> string option
    \<Rightarrow> string option \<Rightarrow> store \<Rightarrow> addr \<Rightarrow> (addr \<times> store) option" where
  "buildTimelineItems_st host startProp endProp indexProp calendarProp h entries =
     (case ref_array h entries of
        None \<Rightarrow> None
      | Some rs \<Rightarrow>
          (let (items, h) = alloc h (RefArray [])
           in case build_st host h rs startProp endProp indexProp calendarProp items of
                None \<Rightarrow> None
              | Some h \<Rightarrow> Some (items, h)))"

text \<open>
  A store is in order when nothing lies at or beyond \<open>free\<close>. \<open>unchanged h h'\<close>: every
  object of \<open>h\<close> is the same in \<open>h'\<close>. An operation \<open>run\<close>, reading its input with \<open>input\<close>
  and its result with \<open>output\<close>, is a pure operation computing \<open>f\<close> when, on every store in
  order and every input it can read, it returns; leaves every object of the store,
  hence its input, unchanged; returns an address that was not in use before; the result
  read there is \<open>f\<close> of the input; and a second run on the same input gives the same
  result and leaves the first one as it was.
\<close>

definition store_ok :: "store \<Rightarrow> bool" where
  "store_ok h = (\<forall>a. free h \<le> a \<longrightarrow> objs h a = None)"

definition unchanged :: "store \<Rightarrow> store \<Rightarrow> bool" where
  "unchanged h h' = (free h \<le> free h' \<and> (\<forall>a. a < free h \<longrightarrow> objs h' a = objs h a))"

definition pure_operation ::
    "(store \<Rightarrow> addr \<Rightarrow> (addr \<times> store) option) \<Rightarrow> (store \<Rightarrow> addr \<Rightarrow> 'a option)
      \<Rightarrow> (store \<Rightarrow> addr \<Rightarrow> 'b option) \<Rightarrow> ('a \<Rightarrow> 'b) \<Rightarrow> bool" where
  "pure_operation run input output f =
     (\<forall>h a x. store_ok h \<and> input h a = Some x \<longrightarrow>
        (\<exists>r h'. run h a = Some (r, h') \<and> store_ok h' \<and> unchanged h h' \<and> input h' a = Some x \<and>
                free h \<le> r \<and> r < free h' \<and> output h' r = Some (f x) \<and>
                (\<exists>r2 h2. run h' a = Some (r2, h2) \<and> output h2 r2 = Some (f x) \<and>
                         output h2 r = Some (f x))))"

text \<open>
  The relation between the store of the track loop and the lists of \<open>assign_loop\<close>, for
  the proof: the tracks are distinct arrays made in this call (at or beyond \<open>base\<close>), each
  holding the addresses of the items of one track, which lie below \<open>base\<close>.
\<close>

definition track_rel :: "addr \<Rightarrow> store \<Rightarrow> addr \<Rightarrow> TimelineItem list \<Rightarrow> bool" where
  "track_rel base h t trk =
     (base \<le> t \<and>
      (\<exists>refs. ref_array h t = Some refs \<and> (\<forall>x\<in>set refs. x < base) \<and>
              deref_all (item_at h) refs = Some trk))"

definition tracks_rel ::
    "addr \<Rightarrow> store \<Rightarrow> addr \<Rightarrow> addr \<Rightarrow> TimelineItem list list \<Rightarrow> jsnum list \<Rightarrow> bool" where
  "tracks_rel base h T L trks lastEnd =
     (base \<le> T \<and> base \<le> L \<and> T \<noteq> L \<and> num_array h L = Some lastEnd \<and>
      (\<exists>ts. ref_array h T = Some ts \<and> distinct ts \<and> T \<notin> set ts \<and> L \<notin> set ts \<and>
            list_all2 (track_rel base h) ts trks))"

text \<open>A store with two items and the array of both.\<close>

definition example_store :: store where
  "example_store =
     \<lparr>objs = [0 \<mapsto> ItemObj (item_of ''n2'' (Fin 3) (Fin 10) None),
              1 \<mapsto> ItemObj (item_of ''n1'' (Fin 1) (Fin 5) None),
              2 \<mapsto> RefArray [0, 1]],
      free = 3\<rparr>"

section \<open>Properties of the calendar arithmetic\<close>

lemma smod_zero_iff: "0 < n \<Longrightarrow> (k smod n = 0) = (k mod n = 0)" for k n :: int
  by (auto simp: signed_modulo_int_def mod_eq_0_iff_dvd sgn_if split: if_splits)

lemma isLeap_mod: "isLeap Y = ((Y mod 4 = 0 \<and> Y mod 100 \<noteq> 0) \<or> Y mod 400 = 0)"
  by (simp add: isLeap_def smod_zero_iff)

lemma yearLength_ge: "365 \<le> yearLength i"
  by (simp add: yearLength_def)

declare to_year_loop.simps [simp del]
declare spacing.simps [simp del]
declare to_month_loop.simps [simp del]
declare to_month_loop_dflt.simps [simp del]
declare from_month_loop.simps [simp del]

lemma to_year_loop_sum: "to_year_loop i Y days = days + (\<Sum>k\<in>{i..<Y}. yearLength k)"
proof (induction i Y days rule: to_year_loop.induct)
  case (1 i Y days)
  show ?case
  proof (cases "i < Y")
    case True
    then have "{i..<Y} = insert i {i + 1..<Y}" by auto
    then have "(\<Sum>k\<in>{i..<Y}. yearLength k) = yearLength i + (\<Sum>k\<in>{i + 1..<Y}. yearLength k)"
      by simp
    with True 1 show ?thesis by (subst to_year_loop.simps) simp
  next
    case False
    then show ?thesis by (subst to_year_loop.simps) simp
  qed
qed

lemma from_year_loop_sum:
  "k \<le> y \<Longrightarrow> 0 \<le> r \<Longrightarrow> r < yearLength y \<Longrightarrow>
   from_year_loop (Fin ((\<Sum>j\<in>{k..<y}. yearLength j) + r)) k = Some (r, y)"
proof (induction "nat (y - k)" arbitrary: k)
  case 0
  then have "k = y" by simp
  with 0 show ?case by (subst from_year_loop.simps) simp
next
  case (Suc n)
  then have lt: "k < y" by simp
  then have split: "{k..<y} = insert k {k + 1..<y}" by auto
  have nonneg: "0 \<le> (\<Sum>j\<in>{k + 1..<y}. yearLength j)"
    by (rule sum_nonneg) (use yearLength_ge in \<open>simp add: order_trans [of 0 365]\<close>)
  have eq: "(\<Sum>j\<in>{k..<y}. yearLength j) = yearLength k + (\<Sum>j\<in>{k + 1..<y}. yearLength j)"
    using split by simp
  have ih: "from_year_loop (Fin ((\<Sum>j\<in>{k + 1..<y}. yearLength j) + r)) (k + 1) = Some (r, y)"
    using Suc lt by (intro Suc.hyps(1)) auto
  show ?case
    using nonneg Suc.prems ih by (subst from_year_loop.simps) (simp add: eq)
qed

lemma from_year_loop_ge:
  assumes "from_year_loop day k = Some (r, y)" shows "k \<le> y"
  by (rule from_year_loop.raw_induct [where P = "\<lambda>day k p. k \<le> snd p" and ya = "(r, y)", OF _ assms, simplified])
     (fastforce split: jsnum.splits if_splits)

lemma from_year_loop_notNaN:
  assumes "from_year_loop day k = Some p" shows "day \<noteq> NaN"
  by (rule from_year_loop.raw_induct [where P = "\<lambda>day k p. day \<noteq> NaN", OF _ assms])
     (auto split: jsnum.splits if_splits)

lemma from_year_loop_NaN: "from_year_loop NaN k = None"
  using from_year_loop_notNaN [of NaN k] by (cases "from_year_loop NaN k") auto

text \<open>
  In whole numbers the year loop ends for every number, and only for a number:
  \<open>fromAbsoluteDay\<close> returns on every day that is not \<open>NaN\<close>.
\<close>

lemma from_year_loop_returns: "\<exists>r. from_year_loop (Fin k) y = Some r"
proof (induction "nat k" arbitrary: k y rule: less_induct)
  case less
  show ?case
  proof (cases "k < yearLength y")
    case True
    then show ?thesis by (subst from_year_loop.simps) simp
  next
    case False
    have "365 \<le> yearLength y" by (rule yearLength_ge)
    with False have "nat (k - yearLength y) < nat k" by simp
    from less [OF this] obtain r where "from_year_loop (Fin (k - yearLength y)) (y + 1) = Some r"
      by blast
    with False show ?thesis by (subst from_year_loop.simps) simp
  qed
qed

lemma fromAbsoluteDay_returns: "\<exists>r. fromAbsoluteDay (Fin n) = Some r"
  using from_year_loop_returns [of n 0]
  by (auto simp: fromAbsoluteDay_def Let_def split: prod.splits)

lemma fromAbsoluteDay_NaN: "fromAbsoluteDay NaN = None"
  by (simp add: fromAbsoluteDay_def from_year_loop_NaN)


lemma sum_take_Suc: "n < length md \<Longrightarrow> sum_list (take (Suc n) md) = sum_list (take n md) + md ! n" for md :: "int list"
  by (simp add: take_Suc_conv_app_nth)

lemma to_month_loop_sum:
  "1 \<le> j \<Longrightarrow> j \<le> M \<Longrightarrow> M \<le> int (length md) + 1 \<Longrightarrow>
   to_month_loop j M md (Fin a) =
     Fin (a + sum_list (take (nat (M - 1)) md) - sum_list (take (nat (j - 1)) md))"
proof (induction j M md "Fin a" arbitrary: a rule: to_month_loop.induct)
  case (1 j M md)
  show ?case
  proof (cases "j < M")
    case True
    have n: "nat (j - 1) < length md" using True 1 by simp
    have s: "nat j = Suc (nat (j - 1))" using 1 by simp
    have get: "arr_get md (j - 1) = Some (md ! nat (j - 1))"
      using True 1 by (simp add: arr_get_def)
    have "to_month_loop j M md (Fin a) = to_month_loop (j + 1) M md (Fin (a + md ! nat (j - 1)))"
      using True get by (subst to_month_loop.simps) (simp add: to_number_def)
    also have "\<dots> = Fin (a + md ! nat (j - 1) + sum_list (take (nat (M - 1)) md) - sum_list (take (nat j) md))"
      using True 1 get by (subst "1.hyps") (simp_all add: to_number_def)
    finally show ?thesis using sum_take_Suc [OF n] s by simp
  next
    case False
    with 1 have "j = M" by simp
    then show ?thesis by (subst to_month_loop.simps) simp
  qed
qed

lemma to_month_loop_dflt_sum:
  "1 \<le> j \<Longrightarrow> j \<le> M \<Longrightarrow> M \<le> int (length md) + 1 \<Longrightarrow>
   to_month_loop_dflt j M md a =
     a + sum_list (take (nat (M - 1)) md) - sum_list (take (nat (j - 1)) md)"
proof (induction j M md a rule: to_month_loop_dflt.induct)
  case (1 j M md a)
  show ?case
  proof (cases "j < M")
    case True
    have n: "nat (j - 1) < length md" using True 1 by simp
    have s: "nat j = Suc (nat (j - 1))" using 1 by simp
    have get: "arr_get md (j - 1) = Some (md ! nat (j - 1))"
      using True 1 by (simp add: arr_get_def)
    have "to_month_loop_dflt j M md a = to_month_loop_dflt (j + 1) M md (a + md ! nat (j - 1))"
      using True get by (subst to_month_loop_dflt.simps) (simp add: nullish_def)
    also have "\<dots> = a + md ! nat (j - 1) + sum_list (take (nat (M - 1)) md) - sum_list (take (nat j) md)"
      using "1.IH" [OF True] True 1 get by (simp add: nullish_def)
    finally show ?thesis using sum_take_Suc [OF n] s by simp
  next
    case False
    with 1 have "j = M" by simp
    then show ?thesis by (subst to_month_loop_dflt.simps) simp
  qed
qed

lemma sum_take_mono:
  "\<forall>x\<in>set md. 0 < x \<Longrightarrow> i \<le> k \<Longrightarrow> sum_list (take i md) \<le> sum_list (take k md)" for md :: "int list"
proof (induction k)
  case 0
  then show ?case by simp
next
  case (Suc k)
  show ?case
  proof (cases "i = Suc k")
    case False
    with Suc have le: "sum_list (take i md) \<le> sum_list (take k md)" by simp
    show ?thesis
    proof (cases "k < length md")
      case True
      then have "0 < md ! k" using Suc.prems(1) by simp
      with le sum_take_Suc [OF True] show ?thesis by simp
    next
      case False
      with le show ?thesis by simp
    qed
  qed simp
qed

lemma from_month_loop_sum:
  "\<forall>x\<in>set md. 0 < x \<Longrightarrow> k < length md \<Longrightarrow> i \<le> k \<Longrightarrow> 0 \<le> r \<Longrightarrow> r < md ! k \<Longrightarrow>
   from_month_loop md i m0 (sum_list (take k md) - sum_list (take i md) + r) = (int k + 1, r)"
proof (induction "k - i" arbitrary: i)
  case 0
  then have "i = k" by simp
  with 0 show ?case by (subst from_month_loop.simps) simp
next
  case (Suc n)
  then have lt: "i < k" by simp
  then have il: "i < length md" using Suc.prems by simp
  have mono: "sum_list (take (Suc i) md) \<le> sum_list (take k md)"
    using sum_take_mono [OF Suc.prems(1), of "Suc i" k] lt by simp
  have ih: "from_month_loop md (Suc i) m0 (sum_list (take k md) - sum_list (take (Suc i) md) + r) = (int k + 1, r)"
    using Suc lt by (intro Suc.hyps(1)) auto
  have ge: "\<not> sum_list (take k md) - sum_list (take i md) + r < md ! i"
    using mono sum_take_Suc [OF il] Suc.prems by simp
  have eq: "sum_list (take k md) - sum_list (take i md) + r - md ! i
      = sum_list (take k md) - sum_list (take (Suc i) md) + r"
    using sum_take_Suc [OF il] by simp
  have "from_month_loop md i m0 (sum_list (take k md) - sum_list (take i md) + r)
      = from_month_loop md (Suc i) m0 (sum_list (take k md) - sum_list (take i md) + r - md ! i)"
    using il ge by (subst from_month_loop.simps) simp
  also have "\<dots> = (int k + 1, r)"
    unfolding eq by (rule ih)
  finally show ?case .
qed



lemma monthTable_length: "length (monthTable l) = 12"
  by (simp add: monthTable_def)

lemma monthTable_pos: "\<forall>x\<in>set (monthTable l). 0 < x"
  by (simp add: monthTable_def)

lemma monthTable_sum: "sum_list (monthTable (isLeap y)) = yearLength y"
  by (simp add: monthTable_def yearLength_def)

lemma fold_add: "fold (\<lambda>b a. a + b) xs acc = acc + sum_list xs" for xs :: "int list"
  by (induction xs arbitrary: acc) auto

lemma offset_bounds:
  fixes md :: "int list"
  assumes pos: "\<forall>x\<in>set md. 0 < x" and m: "1 \<le> m" "m \<le> int (length md)"
    and d: "1 \<le> d" "d \<le> md ! nat (m - 1)"
  shows "0 \<le> sum_list (take (nat (m - 1)) md) + (d - 1)"
    and "sum_list (take (nat (m - 1)) md) + (d - 1) < sum_list md"
proof -
  have "sum_list (take 0 md) \<le> sum_list (take (nat (m - 1)) md)"
    by (rule sum_take_mono [OF pos]) simp
  then show "0 \<le> sum_list (take (nat (m - 1)) md) + (d - 1)" using d by simp
  have n: "nat (m - 1) < length md" using m by simp
  have "sum_list (take (Suc (nat (m - 1))) md) \<le> sum_list (take (length md) md)"
    by (rule sum_take_mono [OF pos]) (use n in simp)
  then show "sum_list (take (nat (m - 1)) md) + (d - 1) < sum_list md"
    using sum_take_Suc [OF n] d by simp
qed

lemma toAbsoluteDay_closed:
  assumes "1 \<le> m" "m \<le> 13"
  shows "toAbsoluteDay y m d =
    Fin (sum yearLength {0..<y} + sum_list (take (nat (m - 1)) (monthTable (isLeap y))) + (d - 1))"
  using assms by (simp add: toAbsoluteDay_def Let_def to_year_loop_sum to_month_loop_sum monthTable_length)

text \<open>
  Claim C1, for years from 0 on and day numbers up to \<open>2^53\<close>: for every date
  \<open>(y, m, d)\<close> with \<open>0 \<le> y\<close>, \<open>1 \<le> m \<le> 12\<close> and \<open>1 \<le> d \<le> daysInMonth(y, m)\<close>,
  February 29 of a leap year included, whose day number \<open>toAbsoluteDay(y, m, d)\<close> is at
  most \<open>2^53\<close>, \<open>fromAbsoluteDay(toAbsoluteDay(y, m, d))\<close> returns, and returns exactly
  \<open>(y, m, d)\<close>. Under the bound no value of the two computations exceeds \<open>2^53\<close>,
  so the source computes them exactly.
\<close>

theorem gregorian_roundtrip:
  assumes "0 \<le> y" "1 \<le> m" "m \<le> 12" "1 \<le> d" "d \<le> daysInMonth y m"
    and "js_ge (Fin (2 ^ 53)) (toAbsoluteDay y m d)"
  shows "fromAbsoluteDay (toAbsoluteDay y m d) = Some (y, m, d)"
proof -
  let ?md = "monthTable (isLeap y)"
  let ?r = "sum_list (take (nat (m - 1)) ?md) + (d - 1)"
  have m': "m \<le> int (length ?md)" using assms by (simp add: monthTable_length)
  have d': "d \<le> ?md ! nat (m - 1)" using assms by (simp add: daysInMonth_def)
  have r0: "0 \<le> ?r" and r1: "?r < yearLength y"
    using offset_bounds [OF monthTable_pos assms(2) m' assms(4) d'] by (simp_all add: monthTable_sum)
  have "toAbsoluteDay y m d = Fin (sum yearLength {0..<y} + ?r)"
    using assms by (simp add: toAbsoluteDay_closed)
  moreover have "from_year_loop (Fin (sum yearLength {0..<y} + ?r)) 0 = Some (?r, y)"
    using assms r0 r1 by (intro from_year_loop_sum) auto
  moreover have "from_month_loop ?md 0 1 ?r = (m, d - 1)"
    using from_month_loop_sum [OF monthTable_pos, of "nat (m - 1)" "isLeap y" 0 "d - 1" 1] assms m' d'
    by simp
  ultimately show ?thesis
    by (simp add: fromAbsoluteDay_def)
qed

theorem gregorian_roundtrip_witness:
  "(0::int) \<le> 4 \<and> (1::int) \<le> 2 \<and> (2::int) \<le> 12 \<and> (1::int) \<le> 29 \<and> 29 \<le> daysInMonth 4 2 \<and>
   js_ge (Fin (2 ^ 53)) (toAbsoluteDay 4 2 29) \<and>
   fromAbsoluteDay (toAbsoluteDay 4 2 29) = Some (4, 2, 29)"
proof -
  have day: "toAbsoluteDay 4 2 29 = Fin 1520"
    by (simp add: toAbsoluteDay_def to_year_loop.simps to_month_loop.simps yearLength_def
        isLeap_def monthTable_def arr_get_def to_number_def signed_modulo_int_def)
  have "js_ge (Fin (2 ^ 53)) (toAbsoluteDay 4 2 29)"
    by (simp add: day)
  moreover have "(29::int) \<le> daysInMonth 4 2"
    by (simp add: daysInMonth_def isLeap_def monthTable_def signed_modulo_int_def)
  ultimately show ?thesis
    using gregorian_roundtrip [of 4 2 29] by simp
qed

text \<open>
  Without the lower bound on the year the round trip fails: the first day of year \<open>-1\<close> is
  a valid date of the claim, it is sent to day 0, and day 0 comes back as the first day of
  year 0.
\<close>

theorem gregorian_roundtrip_negative_year_counterexample:
  "(1::int) \<le> 1 \<and> (1::int) \<le> 12 \<and> (1::int) \<le> daysInMonth (- 1) 1 \<and>
   fromAbsoluteDay (toAbsoluteDay (- 1) 1 1) = Some (0, 1, 1) \<and>
   fromAbsoluteDay (toAbsoluteDay (- 1) 1 1) \<noteq> Some (- 1, 1, 1)"
  by (simp add: daysInMonth_def toAbsoluteDay_def fromAbsoluteDay_def to_year_loop.simps
      to_month_loop.simps from_year_loop.simps from_month_loop.simps yearLength_def isLeap_def
      monthTable_def signed_modulo_int_def)

lemma spacing_small: "n < 2 ^ 53 \<Longrightarrow> spacing n = 1"
  by (subst spacing.simps) simp

text \<open>A whole number from \<open>-2^53\<close> to \<open>2^53\<close> is a binary64 number.\<close>

lemma binary64_exact: "\<bar>n\<bar> \<le> 2 ^ 53 \<Longrightarrow> binary64 n = n"
proof (cases "\<bar>n\<bar> < 2 ^ 53")
  case True
  then show ?thesis by (simp add: binary64_def spacing_small)
next
  case False
  assume "\<bar>n\<bar> \<le> 2 ^ 53"
  with False have a: "\<bar>n\<bar> = 2 ^ 53" by simp
  have "spacing (2 ^ 53) = 2"
    by (subst spacing.simps) (simp add: spacing_small)
  moreover from a have "n = 2 ^ 53 \<or> n = - (2 ^ 53)" by linarith
  ultimately show ?thesis using a by (auto simp: binary64_def)
qed

lemma sum_list_pos_nonneg: "\<forall>x\<in>set xs. 0 < x \<Longrightarrow> 0 \<le> sum_list xs" for xs :: "int list"
  by (induction xs) auto

lemma length_le_sum_list: "\<forall>x\<in>set xs. 0 < x \<Longrightarrow> int (length xs) \<le> sum_list xs" for xs :: "int list"
  by (induction xs) auto

lemma fold_binary64_exact:
  "\<forall>x\<in>set xs. 0 < x \<Longrightarrow> 0 \<le> acc \<Longrightarrow> acc + sum_list xs \<le> 2 ^ 53 \<Longrightarrow>
   fold (\<lambda>b a. binary64 (a + b)) xs acc = acc + sum_list xs"
proof (induction xs arbitrary: acc)
  case Nil
  then show ?case by simp
next
  case (Cons x xs)
  have nn: "0 \<le> sum_list xs" using Cons.prems(1) by (intro sum_list_pos_nonneg) simp
  have x: "0 < x" using Cons.prems(1) by simp
  have "\<bar>acc + x\<bar> \<le> 2 ^ 53" using Cons.prems(2,3) nn x by simp
  then have b: "binary64 (acc + x) = acc + x" by (rule binary64_exact)
  have "fold (\<lambda>b a. binary64 (a + b)) xs (acc + x) = acc + x + sum_list xs"
    using Cons.prems nn x by (intro Cons.IH) auto
  then show ?case by (simp add: b)
qed

lemma to_month_loop_dflt64_exact:
  assumes pos: "\<forall>x\<in>set md. 0 < x"
  shows "1 \<le> j \<Longrightarrow> j \<le> M \<Longrightarrow> M \<le> int (length md) + 1 \<Longrightarrow> M \<le> 2 ^ 53 \<Longrightarrow> - (2 ^ 53) \<le> a \<Longrightarrow>
    a + sum_list (take (nat (M - 1)) md) - sum_list (take (nat (j - 1)) md) \<le> 2 ^ 53 \<Longrightarrow>
    to_month_loop_dflt64 j M md a =
      Some (a + sum_list (take (nat (M - 1)) md) - sum_list (take (nat (j - 1)) md))"
proof (induction "nat (M - j)" arbitrary: j a)
  case 0
  then have "j = M" by simp
  then show ?case by (subst to_month_loop_dflt64.simps) simp
next
  case (Suc n)
  then have lt: "j < M" by simp
  have n: "nat (j - 1) < length md" using lt Suc.prems by simp
  have s: "nat j = Suc (nat (j - 1))" using Suc.prems by simp
  have get: "arr_get md (j - 1) = Some (md ! nat (j - 1))"
    using lt Suc.prems by (simp add: arr_get_def)
  have x: "0 < md ! nat (j - 1)" using pos n by simp
  have mono: "sum_list (take (nat j) md) \<le> sum_list (take (nat (M - 1)) md)"
    by (rule sum_take_mono [OF pos]) (use lt in simp)
  have step: "sum_list (take (nat j) md) = sum_list (take (nat (j - 1)) md) + md ! nat (j - 1)"
    using sum_take_Suc [OF n] s by simp
  have bj: "binary64 (j + 1) = j + 1" "binary64 (j - 1) = j - 1"
    using lt Suc.prems by (auto intro!: binary64_exact)
  have "\<bar>a + md ! nat (j - 1)\<bar> \<le> 2 ^ 53"
    using Suc.prems(5,6) x mono step by linarith
  then have ba: "binary64 (a + md ! nat (j - 1)) = a + md ! nat (j - 1)" by (rule binary64_exact)
  have "to_month_loop_dflt64 j M md a = to_month_loop_dflt64 (j + 1) M md (a + md ! nat (j - 1))"
    using lt by (subst to_month_loop_dflt64.simps) (simp add: bj get nullish_def ba)
  also have "\<dots> = Some (a + md ! nat (j - 1) + sum_list (take (nat (M - 1)) md)
      - sum_list (take (nat (j + 1 - 1)) md))"
    using Suc.hyps(2) lt Suc.prems x step by (intro Suc.hyps(1)) auto
  finally show ?case using step by simp
qed

text \<open>
  As long as \<open>|y| * yearDays + yearDays\<close> is at most \<open>2^53\<close>, no result of
  \<open>toAbsoluteDayWithMonths\<close> is rounded: the conversion with the rounding of the source
  returns, and returns the number computed in whole numbers.
\<close>

lemma toAbsoluteDayWithMonths64_exact:
  assumes pos: "\<forall>x\<in>set months. 0 < x"
    and m: "1 \<le> m" "m \<le> int (length months)" and d: "1 \<le> d" "d \<le> months ! nat (m - 1)"
    and bound: "\<bar>y\<bar> * sum_list months + sum_list months \<le> 2 ^ 53"
  shows "toAbsoluteDayWithMonths64 y m d months = Some (toAbsoluteDayWithMonths y m d months)"
proof -
  let ?S = "sum_list months"
  let ?t = "sum_list (take (nat (m - 1)) months)"
  have r0: "0 \<le> ?t + (d - 1)" and r1: "?t + (d - 1) < ?S"
    using offset_bounds [OF pos m d] by simp_all
  have S: "0 < ?S" using r0 r1 by simp
  have yS: "\<bar>y * ?S\<bar> = \<bar>y\<bar> * ?S" using S by (simp add: abs_mult)
  have ay: "0 \<le> \<bar>y\<bar> * ?S" using S by simp
  have le: "y * ?S \<le> \<bar>y\<bar> * ?S" using S by (simp add: mult_right_mono)
  have ge: "- (\<bar>y\<bar> * ?S) \<le> y * ?S" using yS by linarith
  have len: "int (length months) \<le> ?S" by (rule length_le_sum_list [OF pos])
  have t0: "0 \<le> ?t" using sum_take_mono [OF pos, of 0 "nat (m - 1)"] by simp
  have get: "arr_get months (m - 1) = Some (months ! nat (m - 1))"
    using m by (simp add: arr_get_def)
  have f: "fold (\<lambda>b a. binary64 (a + b)) months 0 = ?S"
    using fold_binary64_exact [OF pos, of 0] bound ay by simp
  have b1: "binary64 (y * ?S) = y * ?S"
    by (rule binary64_exact) (use yS bound S in linarith)
  have p1: "m \<le> 2 ^ 53" using m len bound ay by linarith
  have p2: "- (2 ^ 53) \<le> y * ?S" using ge bound S by linarith
  have p3: "y * ?S + ?t \<le> 2 ^ 53" using le r1 d bound by linarith
  have loop: "to_month_loop_dflt64 1 m months (y * ?S) = Some (y * ?S + ?t)"
    using to_month_loop_dflt64_exact [OF pos, of 1 m "y * ?S"] m p1 p2 p3
    by simp
  have b2: "binary64 (m - 1) = m - 1"
    by (rule binary64_exact) (use m len bound ay S in linarith)
  have b3: "binary64 (d - 1) = d - 1"
    by (rule binary64_exact) (use d r1 t0 bound ay in linarith)
  have b4: "binary64 (y * ?S + ?t + (d - 1)) = y * ?S + ?t + (d - 1)"
    by (rule binary64_exact) (use r0 r1 bound le ge in linarith)
  have dc: "max 1 (min (months ! nat (m - 1)) d) = d" using d by simp
  have exact: "toAbsoluteDayWithMonths y m d months = y * ?S + (?t + (d - 1))"
    using m d get
    by (simp add: toAbsoluteDayWithMonths_def Let_def fold_add to_month_loop_dflt_sum nullish_def)
  show ?thesis
    by (simp add: toAbsoluteDayWithMonths64_def f b1 loop b2 get nullish_def dc b3 b4 exact
        del: max_min_distrib2)
qed




lemma fromAbsoluteDay_neg: "n < 0 \<Longrightarrow> fromAbsoluteDay (Fin n) = Some (0, 1, n + 1)"
proof -
  assume n: "n < 0"
  have y: "from_year_loop (Fin n) 0 = Some (n, 0)"
    using n by (subst from_year_loop.simps) (simp add: yearLength_def)
  have "from_month_loop (monthTable (isLeap 0)) 0 1 n = (1, n)"
    using n by (subst from_month_loop.simps) (simp add: monthTable_def)
  with y show ?thesis by (simp add: fromAbsoluteDay_def)
qed

lemma fromAbsoluteDay_year_nonneg:
  assumes "fromAbsoluteDay x = Some (y, m, d)" shows "0 \<le> y"
proof -
  obtain r y' where l: "from_year_loop x 0 = Some (r, y')"
    using assms by (auto simp: fromAbsoluteDay_def split: option.splits)
  then have "y = y'"
    using assms by (simp add: fromAbsoluteDay_def Let_def split: prod.splits)
  with from_year_loop_ge [OF l] show ?thesis by simp
qed

text \<open>
  Claim C10: for every negative day \<open>n\<close>, \<open>fromAbsoluteDay(n)\<close> returns year 0, month 1
  and the day \<open>n + 1\<close>; and for every \<open>(y, m, d)\<close> with \<open>y < 0\<close> the Gregorian round
  trip \<open>fromAbsoluteDay(toAbsoluteDay(y, m, d))\<close> does not return \<open>(y, m, d)\<close>.
\<close>

theorem fromAbsoluteDay_negative:
  "(\<forall>n<0. fromAbsoluteDay (Fin n) = Some (0, 1, n + 1)) \<and>
   (\<forall>y m d. y < 0 \<longrightarrow> fromAbsoluteDay (toAbsoluteDay y m d) \<noteq> Some (y, m, d))"
  using fromAbsoluteDay_neg fromAbsoluteDay_year_nonneg by fastforce

theorem fromAbsoluteDay_negative_witness:
  "(- 5 :: int) < 0 \<and> fromAbsoluteDay (Fin (- 5)) = Some (0, 1, - 5 + 1) \<and>
   (- 1 :: int) < 0 \<and> fromAbsoluteDay (toAbsoluteDay (- 1) 1 1) \<noteq> Some (- 1, 1, 1)"
  using fromAbsoluteDay_negative by simp


section \<open>Tracks\<close>

lemma item_of_simps [simp]:
  "path (entry (item_of p s e ix)) = p"
  "startDay (range' (item_of p s e ix)) = s"
  "endDay (range' (item_of p s e ix)) = e"
  "indexValue (item_of p s e ix) = ix"
  by (simp_all add: item_of_def)

declare place.simps [simp del]

lemma place_inv:
  "place item t trks lastEnd = Some (trks', lastEnd') \<Longrightarrow> tracks_inv trks lastEnd \<Longrightarrow>
   tracks_inv trks' lastEnd'"
proof (induction item t trks lastEnd rule: place.induct)
  case (1 item t trks lastEnd)
  from "1.prems"(1) have t: "t < length trks"
    by (subst (asm) place.simps) (simp split: if_splits)
  with "1.prems"(2) have tl: "t < length lastEnd" by (simp add: tracks_inv_def)
  then have get: "arr_get lastEnd (int t) = Some (lastEnd ! t)" by (simp add: arr_get_def)
  show ?case
  proof (cases "js_gt (startDay (range' item)) (lastEnd ! t)")
    case True
    with "1.prems"(1) t get have eq: "trks' = trks[t := trks ! t @ [item]]"
      "lastEnd' = lastEnd[t := endDay (range' item)]"
      by (subst (asm) place.simps, simp)+
    have "follows (last (trks ! t)) item"
      using True "1.prems"(2) t by (simp add: follows_def tracks_inv_def)
    then have "successively follows (trks ! t @ [item])"
      using "1.prems"(2) t by (simp add: successively_append_iff tracks_inv_def)
    then show ?thesis
      using "1.prems"(2) t unfolding eq tracks_inv_def
      by (auto simp: nth_list_update)
  next
    case False
    with "1.prems"(1) t get have "place item (t + 1) trks lastEnd = Some (trks', lastEnd')"
      by (subst (asm) place.simps) simp
    with "1.IH" [OF t] False get "1.prems"(2) show ?thesis by simp
  qed
qed

lemma new_track_inv:
  "tracks_inv trks lastEnd \<Longrightarrow> tracks_inv (trks @ [[item]]) (lastEnd @ [endDay (range' item)])"
  by (auto simp: tracks_inv_def nth_append)

lemma assign_loop_inv:
  "tracks_inv trks lastEnd \<Longrightarrow> assign_loop items trks lastEnd = (trks', lastEnd') \<Longrightarrow>
   tracks_inv trks' lastEnd'"
proof (induction items arbitrary: trks lastEnd)
  case Nil
  then show ?case by simp
next
  case (Cons item items)
  show ?case
  proof (cases "place item 0 trks lastEnd")
    case None
    with Cons.prems(2) have "assign_loop items (trks @ [[item]]) (lastEnd @ [endDay (range' item)]) = (trks', lastEnd')"
      by simp
    with Cons.IH new_track_inv [OF Cons.prems(1)] show ?thesis by blast
  next
    case (Some p)
    obtain trks1 lastEnd1 where p: "p = (trks1, lastEnd1)" by (cases p)
    with Some Cons.prems(2) have "assign_loop items trks1 lastEnd1 = (trks', lastEnd')" by simp
    with Cons.IH place_inv [OF Some [unfolded p] Cons.prems(1)] show ?thesis by blast
  qed
qed

text \<open>
  Claim C2: for every sequence of items, in every track that \<open>assignTracks\<close> returns each
  item starts after the end of the item before it: \<open>next.startDay > prev.endDay\<close> for all
  adjacent pairs.
\<close>

theorem assignTracks_no_overlap:
  "\<forall>track \<in> set (tracks (assignTracks items)). \<forall>i. Suc i < length track \<longrightarrow>
     js_gt (startDay (range' (track ! Suc i))) (endDay (range' (track ! i)))"
proof -
  obtain trks lastEnd where r: "assign_loop items [] [] = (trks, lastEnd)"
    by (cases "assign_loop items [] []")
  have "tracks_inv [] []" by (simp add: tracks_inv_def)
  from assign_loop_inv [OF this r] have "\<forall>track\<in>set trks. successively follows track"
    by (auto simp: tracks_inv_def in_set_conv_nth)
  then show ?thesis
    using r by (auto simp: assignTracks_def successively_conv_nth follows_def)
qed

theorem assignTracks_no_overlap_witness:
  "tracks (assignTracks [item_of ''a'' (Fin 1) (Fin 5) None, item_of ''b'' (Fin 3) (Fin 10) None,
       item_of ''c'' (Fin 32) (Fin 36) None])
     = [[item_of ''a'' (Fin 1) (Fin 5) None, item_of ''c'' (Fin 32) (Fin 36) None],
        [item_of ''b'' (Fin 3) (Fin 10) None]] \<and>
   js_gt (startDay (range' (item_of ''c'' (Fin 32) (Fin 36) None)))
         (endDay (range' (item_of ''a'' (Fin 1) (Fin 5) None)))"
proof -
  let ?items = "[item_of ''a'' (Fin 1) (Fin 5) None, item_of ''b'' (Fin 3) (Fin 10) None,
       item_of ''c'' (Fin 32) (Fin 36) None]"
  have t: "tracks (assignTracks ?items)
     = [[item_of ''a'' (Fin 1) (Fin 5) None, item_of ''c'' (Fin 32) (Fin 36) None],
        [item_of ''b'' (Fin 3) (Fin 10) None]]"
    by (simp add: assignTracks_def place.simps arr_get_def js_gt_def)
  have "[item_of ''a'' (Fin 1) (Fin 5) None, item_of ''c'' (Fin 32) (Fin 36) None]
      \<in> set (tracks (assignTracks ?items))"
    by (simp add: t)
  from assignTracks_no_overlap [rule_format, OF this, of 0] t show ?thesis by simp
qed

section \<open>Conflicts\<close>

lemma ex_Suc_shift: "(\<exists>i. i < Suc n \<and> P i) = (P 0 \<or> (\<exists>j. j < n \<and> P (Suc j)))"
  by (metis less_Suc_eq_0_disj)

lemma conflict_loop_eq:
  "conflict_loop pos items c =
     c \<union> {p. \<exists>i. Suc i < length items \<and> inverted pos (items ! i) (items ! Suc i) \<and>
                  (p = path (entry (items ! i)) \<or> p = path (entry (items ! Suc i)))}"
proof (induction pos items c rule: conflict_loop.induct)
  case (1 pos prv cur others c)
  let ?F = "\<lambda>xs i p. inverted pos (xs ! i) (xs ! Suc i) \<and>
                  (p = path (entry (xs ! i)) \<or> p = path (entry (xs ! Suc i)))"
  have split: "{p. \<exists>i. Suc i < length (prv # cur # others) \<and> ?F (prv # cur # others) i p}
      = {p. inverted pos prv cur \<and> (p = path (entry prv) \<or> p = path (entry cur))}
        \<union> {p. \<exists>j. Suc j < length (cur # others) \<and> ?F (cur # others) j p}"
    using ex_Suc_shift [of "length others" "\<lambda>i. ?F (prv # cur # others) i p" for p]
    by auto
  show ?case
    unfolding split using "1.IH" [OF refl refl]
    by (auto simp: Let_def inverted_def)
qed simp_all

text \<open>
  Claim C4: every identity string in the set that \<open>detectIndexConflicts\<close> returns belongs to
  a display-adjacent pair of items with two different identities, both of which are in the
  set: no record is flagged alone.
\<close>

theorem detectIndexConflicts_symmetric:
  "\<forall>p \<in> detectIndexConflicts items.
     \<exists>i. Suc i < length items \<and>
         (p = path (entry (items ! i)) \<or> p = path (entry (items ! Suc i))) \<and>
         path (entry (items ! i)) \<noteq> path (entry (items ! Suc i)) \<and>
         path (entry (items ! i)) \<in> detectIndexConflicts items \<and>
         path (entry (items ! Suc i)) \<in> detectIndexConflicts items"
proof
  fix p assume p: "p \<in> detectIndexConflicts items"
  then have len: "\<not> length items \<le> 1" by (auto simp: detectIndexConflicts_def)
  define pos where "pos = set_positions (js_sort cmp_date items) 0 Map.empty"
  have eq: "detectIndexConflicts items =
      {p. \<exists>i. Suc i < length items \<and> inverted pos (items ! i) (items ! Suc i) \<and>
                  (p = path (entry (items ! i)) \<or> p = path (entry (items ! Suc i)))}"
    using len by (simp add: detectIndexConflicts_def Let_def conflict_loop_eq pos_def)
  from p obtain i where i: "Suc i < length items" "inverted pos (items ! i) (items ! Suc i)"
      "p = path (entry (items ! i)) \<or> p = path (entry (items ! Suc i))"
    unfolding eq by blast
  from i(2) have "path (entry (items ! i)) \<noteq> path (entry (items ! Suc i))"
    by (auto simp: inverted_def)
  moreover have "path (entry (items ! i)) \<in> detectIndexConflicts items"
    "path (entry (items ! Suc i)) \<in> detectIndexConflicts items"
    unfolding eq using i by blast+
  ultimately show "\<exists>i. Suc i < length items \<and>
         (p = path (entry (items ! i)) \<or> p = path (entry (items ! Suc i))) \<and>
         path (entry (items ! i)) \<noteq> path (entry (items ! Suc i)) \<and>
         path (entry (items ! i)) \<in> detectIndexConflicts items \<and>
         path (entry (items ! Suc i)) \<in> detectIndexConflicts items"
    using i by blast
qed


theorem detectIndexConflicts_symmetric_witness:
  "detectIndexConflicts [item_of ''n2'' (Fin 3) (Fin 10) (Some 1), item_of ''n1'' (Fin 1) (Fin 5) (Some 2),
       item_of ''n3'' (Fin 32) (Fin 36) (Some 3)] = {''n1'', ''n2''} \<and>
   (\<exists>i. Suc i < length [item_of ''n2'' (Fin 3) (Fin 10) (Some 1), item_of ''n1'' (Fin 1) (Fin 5) (Some 2),
       item_of ''n3'' (Fin 32) (Fin 36) (Some 3)] \<and>
      (''n1'' = path (entry ([item_of ''n2'' (Fin 3) (Fin 10) (Some 1), item_of ''n1'' (Fin 1) (Fin 5) (Some 2),
       item_of ''n3'' (Fin 32) (Fin 36) (Some 3)] ! i)) \<or>
       ''n1'' = path (entry ([item_of ''n2'' (Fin 3) (Fin 10) (Some 1), item_of ''n1'' (Fin 1) (Fin 5) (Some 2),
       item_of ''n3'' (Fin 32) (Fin 36) (Some 3)] ! Suc i))))"
proof -
  let ?items = "[item_of ''n2'' (Fin 3) (Fin 10) (Some 1), item_of ''n1'' (Fin 1) (Fin 5) (Some 2),
       item_of ''n3'' (Fin 32) (Fin 36) (Some 3)]"
  have c: "detectIndexConflicts ?items = {''n1'', ''n2''}"
    by (simp add: detectIndexConflicts_def js_sort_def cmp_date_def js_or_def js_gt_def nullish_def)
  then have "''n1'' \<in> detectIndexConflicts ?items" by simp
  from detectIndexConflicts_symmetric [rule_format, OF this] c show ?thesis by blast
qed


section \<open>Sorting\<close>

lemma js_insert_insort_key:
  "(\<And>y. y \<in> set ys \<Longrightarrow> js_gt (cmp x y) (Fin 0) = (key y < key x)) \<Longrightarrow>
   js_insert cmp x ys = insort_key key x ys" for key :: "'a \<Rightarrow> 'k::linorder"
  by (induction ys) (auto simp: not_less)

lemma js_sort_sort_key:
  "(\<And>x y. x \<in> set xs \<Longrightarrow> y \<in> set xs \<Longrightarrow> js_gt (cmp x y) (Fin 0) = (key y < key x)) \<Longrightarrow>
   js_sort cmp xs = sort_key key xs" for key :: "'a \<Rightarrow> 'k::linorder"
proof (induction xs)
  case Nil
  then show ?case by (simp add: js_sort_def)
next
  case (Cons x xs)
  have ih: "js_sort cmp xs = sort_key key xs"
    by (rule Cons.IH) (simp add: Cons.prems)
  have "js_insert cmp x (sort_key key xs) = insort_key key x (sort_key key xs)"
    by (rule js_insert_insort_key) (simp add: Cons.prems)
  with ih show ?case by (simp add: js_sort_def)
qed

lemma cmp_date_key:
  "numeric_days a \<Longrightarrow> numeric_days b \<Longrightarrow> js_gt (cmp_date a b) (Fin 0) = (dateKey b < dateKey a)"
  by (cases "startDay (range' a)"; cases "startDay (range' b)";
      cases "endDay (range' a)"; cases "endDay (range' b)")
     (auto simp: numeric_days_def cmp_date_def dateKey_def js_or_def js_gt_def)

lemma sort_index: "js_sort cmp_index xs = sort_key (\<lambda>i. nullish (indexValue i) 0) xs"
  by (rule js_sort_sort_key) (simp add: cmp_index_def js_gt_def)

lemma sort_date: "\<forall>i\<in>set xs. numeric_days i \<Longrightarrow> js_sort cmp_date xs = sort_key dateKey xs"
  by (rule js_sort_sort_key) (simp add: cmp_date_key)


lemma dateKey_le:
  "numeric_days a \<Longrightarrow> numeric_days b \<Longrightarrow> dateKey a \<le> dateKey b \<Longrightarrow>
   js_lt (startDay (range' a)) (startDay (range' b)) \<or>
   (startDay (range' a) = startDay (range' b) \<and> js_ge (endDay (range' b)) (endDay (range' a)))"
  by (cases "startDay (range' a)"; cases "startDay (range' b)";
      cases "endDay (range' a)"; cases "endDay (range' b)")
     (auto simp: numeric_days_def dateKey_def)

lemma mset_js_insert: "mset (js_insert cmp x ys) = add_mset x (mset ys)"
  by (induction ys) auto

lemma mset_js_sort: "mset (js_sort cmp xs) = mset xs"
  by (induction xs) (auto simp: js_sort_def mset_js_insert)

text \<open>
  The result of \<open>sortByIndexOrDate\<close> is a rearrangement of the batch. If any item has an
  index, the whole batch is in ascending order of the index, an absent index counting as
  0, and the items of equal index keep their original order. Otherwise, for a batch whose
  start and end days are numbers, the batch is in ascending order of the start day, and of
  the end day among equal start days.
\<close>

theorem sortByIndexOrDate_sorted:
  "mset (sortByIndexOrDate items) = mset items \<and>
   ((\<exists>i\<in>set items. indexValue i \<noteq> None) \<longrightarrow>
      sorted (map (\<lambda>i. nullish (indexValue i) 0) (sortByIndexOrDate items)) \<and>
      (\<forall>k. filter (\<lambda>i. nullish (indexValue i) 0 = k) (sortByIndexOrDate items)
         = filter (\<lambda>i. nullish (indexValue i) 0 = k) items)) \<and>
   ((\<forall>i\<in>set items. indexValue i = None) \<and>
    (\<forall>i\<in>set items. is_fin (startDay (range' i)) \<and> is_fin (endDay (range' i))) \<longrightarrow>
      sorted_wrt (\<lambda>a b. js_lt (startDay (range' a)) (startDay (range' b)) \<or>
                        (startDay (range' a) = startDay (range' b) \<and>
                         js_ge (endDay (range' b)) (endDay (range' a))))
        (sortByIndexOrDate items))"
proof (cases "list_ex (\<lambda>i. indexValue i \<noteq> None) items")
  case True
  then have eq: "sortByIndexOrDate items = sort_key (\<lambda>i. nullish (indexValue i) 0) items"
    by (simp add: sortByIndexOrDate_def sort_index)
  from True have "\<not> (\<forall>i\<in>set items. indexValue i = None)"
    by (simp add: list_ex_iff)
  then show ?thesis
    unfolding eq by (auto simp: sort_key_stable)
next
  case False
  then have eq: "sortByIndexOrDate items = js_sort cmp_date items"
    by (simp add: sortByIndexOrDate_def)
  from False have noidx: "\<not> (\<exists>i\<in>set items. indexValue i \<noteq> None)"
    by (simp add: list_ex_iff)
  have sorted_dates: "sorted_wrt (\<lambda>a b. js_lt (startDay (range' a)) (startDay (range' b)) \<or>
                        (startDay (range' a) = startDay (range' b) \<and>
                         js_ge (endDay (range' b)) (endDay (range' a))))
        (js_sort cmp_date items)"
    if num: "\<forall>i\<in>set items. is_fin (startDay (range' i)) \<and> is_fin (endDay (range' i))"
  proof -
    from num have n: "\<forall>i\<in>set items. numeric_days i" by (simp add: numeric_days_def)
    have "sorted (map dateKey (sort_key dateKey items))" by simp
    then have "sorted_wrt (\<lambda>a b. dateKey a \<le> dateKey b) (sort_key dateKey items)"
      by (simp only: sorted_map)
    then show ?thesis
      unfolding sort_date [OF n]
      by (rule sorted_wrt_mono_rel [rotated]) (use n dateKey_le in \<open>simp\<close>)
  qed
  show ?thesis
    unfolding eq using noidx sorted_dates by (simp add: mset_js_sort)
qed

theorem sortByIndexOrDate_sorted_example:
  "sortByIndexOrDate [item_of ''n1'' (Fin 1) (Fin 5) (Some 2), item_of ''n2'' (Fin 3) (Fin 10) None,
       item_of ''n3'' (Fin 32) (Fin 36) (Some 3)]
     = [item_of ''n2'' (Fin 3) (Fin 10) None, item_of ''n1'' (Fin 1) (Fin 5) (Some 2),
        item_of ''n3'' (Fin 32) (Fin 36) (Some 3)] \<and>
   sorted (map (\<lambda>i. nullish (indexValue i) 0)
     (sortByIndexOrDate [item_of ''n1'' (Fin 1) (Fin 5) (Some 2), item_of ''n2'' (Fin 3) (Fin 10) None,
       item_of ''n3'' (Fin 32) (Fin 36) (Some 3)])) \<and>
   sortByIndexOrDate [item_of ''n2'' (Fin 3) (Fin 10) None, item_of ''n3'' (Fin 32) (Fin 36) None,
       item_of ''n1'' (Fin 3) (Fin 5) None]
     = [item_of ''n1'' (Fin 3) (Fin 5) None, item_of ''n2'' (Fin 3) (Fin 10) None,
        item_of ''n3'' (Fin 32) (Fin 36) None] \<and>
   sorted_wrt (\<lambda>a b. js_lt (startDay (range' a)) (startDay (range' b)) \<or>
                     (startDay (range' a) = startDay (range' b) \<and>
                      js_ge (endDay (range' b)) (endDay (range' a))))
     (sortByIndexOrDate [item_of ''n2'' (Fin 3) (Fin 10) None, item_of ''n3'' (Fin 32) (Fin 36) None,
       item_of ''n1'' (Fin 3) (Fin 5) None])"
proof -
  let ?indexed = "[item_of ''n1'' (Fin 1) (Fin 5) (Some 2), item_of ''n2'' (Fin 3) (Fin 10) None,
       item_of ''n3'' (Fin 32) (Fin 36) (Some 3)]"
  let ?dated = "[item_of ''n2'' (Fin 3) (Fin 10) None, item_of ''n3'' (Fin 32) (Fin 36) None,
       item_of ''n1'' (Fin 3) (Fin 5) None]"
  have "\<exists>i\<in>set ?indexed. indexValue i \<noteq> None" by simp
  with sortByIndexOrDate_sorted [of ?indexed]
  have s1: "sorted (map (\<lambda>i. nullish (indexValue i) 0) (sortByIndexOrDate ?indexed))" by blast
  have "(\<forall>i\<in>set ?dated. indexValue i = None) \<and>
        (\<forall>i\<in>set ?dated. is_fin (startDay (range' i)) \<and> is_fin (endDay (range' i)))" by simp
  with sortByIndexOrDate_sorted [of ?dated]
  have s2: "sorted_wrt (\<lambda>a b. js_lt (startDay (range' a)) (startDay (range' b)) \<or>
                     (startDay (range' a) = startDay (range' b) \<and>
                      js_ge (endDay (range' b)) (endDay (range' a))))
     (sortByIndexOrDate ?dated)" by blast
  have e1: "sortByIndexOrDate ?indexed
     = [item_of ''n2'' (Fin 3) (Fin 10) None, item_of ''n1'' (Fin 1) (Fin 5) (Some 2),
        item_of ''n3'' (Fin 32) (Fin 36) (Some 3)]"
    by (simp add: sortByIndexOrDate_def js_sort_def cmp_index_def js_gt_def nullish_def)
  have e2: "sortByIndexOrDate ?dated
     = [item_of ''n1'' (Fin 3) (Fin 5) None, item_of ''n2'' (Fin 3) (Fin 10) None,
        item_of ''n3'' (Fin 32) (Fin 36) None]"
    by (simp add: sortByIndexOrDate_def js_sort_def cmp_date_def js_or_def js_gt_def)
  from s1 s2 e1 e2 show ?thesis by (intro conjI)
qed

text \<open>
  Sorting a list that the date comparator already accepts changes nothing. This holds
  for days that are not numbers as well, for the stable insertion of \<open>js_sort\<close>; the
  language leaves the order to the engine when a \<open>NaN\<close> day makes the comparator
  inconsistent.
\<close>

lemma cmp_date_antisym: "inverted_pair a b \<Longrightarrow> \<not> inverted_pair b a"
  by (cases "startDay (range' a)"; cases "startDay (range' b)";
      cases "endDay (range' a)"; cases "endDay (range' b)")
     (auto simp: inverted_pair_def cmp_date_def js_or_def js_gt_def split: if_splits)

lemma js_insert_in_order:
  "successively (\<lambda>a b. \<not> inverted_pair a b) ys \<Longrightarrow>
   successively (\<lambda>a b. \<not> inverted_pair a b) (js_insert cmp_date x ys)"
proof (induction ys)
  case Nil
  then show ?case by simp
next
  case (Cons y ys)
  show ?case
  proof (cases "inverted_pair x y")
    case False
    with Cons.prems show ?thesis by (simp add: inverted_pair_def)
  next
    case True
    then have yx: "\<not> inverted_pair y x" by (rule cmp_date_antisym)
    have tl: "successively (\<lambda>a b. \<not> inverted_pair a b) (js_insert cmp_date x ys)"
      using Cons by (cases ys) auto
    have "successively (\<lambda>a b. \<not> inverted_pair a b) (y # js_insert cmp_date x ys)"
      using tl yx Cons.prems by (cases ys) (auto simp: inverted_pair_def)
    with True show ?thesis by (simp add: inverted_pair_def)
  qed
qed

lemma js_sort_in_order: "successively (\<lambda>a b. \<not> inverted_pair a b) (js_sort cmp_date xs)"
  by (induction xs) (auto simp: js_sort_def intro: js_insert_in_order)

lemma js_sort_fixed:
  "successively (\<lambda>a b. \<not> inverted_pair a b) ys \<Longrightarrow> js_sort cmp_date ys = ys"
proof (induction ys)
  case Nil
  then show ?case by (simp add: js_sort_def)
next
  case (Cons y ys)
  then have "js_sort cmp_date ys = ys" by (cases ys) auto
  then have "js_sort cmp_date (y # ys) = js_insert cmp_date y ys" by (simp add: js_sort_def)
  with Cons.prems show ?case by (cases ys) (auto simp: inverted_pair_def)
qed

lemma js_sort_idem: "js_sort cmp_date (js_sort cmp_date xs) = js_sort cmp_date xs"
  by (rule js_sort_fixed) (rule js_sort_in_order)

lemma set_positions_other:
  "p \<notin> set (map (\<lambda>i. path (entry i)) xs) \<Longrightarrow> set_positions xs k m p = m p"
  by (induction xs arbitrary: k m) auto

lemma set_positions_nth:
  "distinct (map (\<lambda>i. path (entry i)) xs) \<Longrightarrow> i < length xs \<Longrightarrow>
   set_positions xs k m (path (entry (xs ! i))) = Some (k + i)"
proof (induction xs arbitrary: k m i)
  case Nil
  then show ?case by simp
next
  case (Cons x xs)
  show ?case
  proof (cases i)
    case 0
    with Cons.prems show ?thesis by (simp add: set_positions_other)
  next
    case (Suc j)
    with Cons.prems Cons.IH [of j "k + 1"] show ?thesis by simp
  qed
qed

text \<open>
  Claim C9: for every batch in which no item has an index and all identity strings are
  distinct, \<open>detectIndexConflicts\<close> applied to the result of \<open>sortByIndexOrDate\<close> returns
  the empty set.
\<close>

theorem date_sorted_no_conflicts:
  assumes "\<forall>i\<in>set items. indexValue i = None"
    and "distinct (map (\<lambda>i. path (entry i)) items)"
  shows "detectIndexConflicts (sortByIndexOrDate items) = {}"
proof -
  let ?ys = "js_sort cmp_date items"
  from assms(1) have eq: "sortByIndexOrDate items = ?ys"
    by (simp add: sortByIndexOrDate_def list_ex_iff)
  have "mset (map (\<lambda>i. path (entry i)) ?ys) = mset (map (\<lambda>i. path (entry i)) items)"
    by (simp add: mset_js_sort)
  then have d: "distinct (map (\<lambda>i. path (entry i)) ?ys)"
    using assms(2) by (metis mset_eq_imp_distinct_iff)
  have "\<not> inverted (set_positions ?ys 0 Map.empty) (?ys ! i) (?ys ! Suc i)"
    if "Suc i < length ?ys" for i
    using that set_positions_nth [OF d, of i 0 Map.empty] set_positions_nth [OF d, of "Suc i" 0 Map.empty]
    by (simp add: inverted_def nullish_def)
  then show ?thesis
    unfolding eq by (auto simp: detectIndexConflicts_def Let_def js_sort_idem conflict_loop_eq)
qed

theorem date_sorted_no_conflicts_witness:
  "list_all (\<lambda>i. indexValue i = None)
     [item_of ''n2'' (Fin 3) (Fin 10) None, item_of ''n3'' (Fin 32) (Fin 36) None,
      item_of ''n1'' (Fin 1) (Fin 5) None] \<and>
   distinct (map (\<lambda>i. path (entry i))
     [item_of ''n2'' (Fin 3) (Fin 10) None, item_of ''n3'' (Fin 32) (Fin 36) None,
      item_of ''n1'' (Fin 1) (Fin 5) None]) \<and>
   detectIndexConflicts (sortByIndexOrDate
     [item_of ''n2'' (Fin 3) (Fin 10) None, item_of ''n3'' (Fin 32) (Fin 36) None,
      item_of ''n1'' (Fin 1) (Fin 5) None]) = {}"
  using date_sorted_no_conflicts
    [of "[item_of ''n2'' (Fin 3) (Fin 10) None, item_of ''n3'' (Fin 32) (Fin 36) None,
          item_of ''n1'' (Fin 1) (Fin 5) None]"]
  by simp

section \<open>The string parser\<close>

declare runs_between.simps [simp del]

lemma runs_between_Nil [simp]: "runs_between [] = []"
  by (subst runs_between.simps) simp

lemma runs_between_sep [simp]: "is_sep c \<Longrightarrow> runs_between (c # cs) = runs_between cs"
  by (subst runs_between.simps, subst (2) runs_between.simps) simp

lemma runs_between_seps: "\<forall>c\<in>set a. is_sep c \<Longrightarrow> runs_between (a @ s) = runs_between s"
  by (induction a) auto

lemma take_run:
  "\<forall>x\<in>set w. P x \<Longrightarrow> s = [] \<or> \<not> P (hd s) \<Longrightarrow> takeWhile P (w @ s) = w"
  by (cases s) (auto simp: takeWhile_append2 takeWhile_eq_all_conv)

lemma drop_run:
  "\<forall>x\<in>set w. P x \<Longrightarrow> s = [] \<or> \<not> P (hd s) \<Longrightarrow> dropWhile P (w @ s) = s"
  by (cases s) (auto simp: dropWhile_append2 dropWhile_eq_Nil_conv)

lemma runs_between_word:
  assumes "cur \<noteq> []" "\<forall>c\<in>set cur. \<not> is_sep c" "s = [] \<or> is_sep (hd s)"
  shows "runs_between (cur @ s) = cur # runs_between s"
proof -
  obtain c r where cur: "cur = c # r" using assms(1) by (cases cur) auto
  have d: "dropWhile is_sep (c # r @ s) = c # r @ s" using assms(2) cur by simp
  have t: "takeWhile (\<lambda>x. \<not> is_sep x) (c # r @ s) = c # r"
    using take_run [of cur "\<lambda>x. \<not> is_sep x" s] assms(2,3) cur by simp
  have r: "dropWhile (\<lambda>x. \<not> is_sep x) (c # r @ s) = s"
    using drop_run [of cur "\<lambda>x. \<not> is_sep x" s] assms(2,3) cur by simp
  have "runs_between (c # r @ s) = (c # r) # runs_between s"
    by (subst runs_between.simps) (simp only: d list.case t r)
  then show ?thesis by (simp add: cur)
qed

lemma runs_between_single:
  "\<forall>c\<in>set cur. \<not> is_sep c \<Longrightarrow> runs_between cur = (if cur = [] then [] else [cur])"
  using runs_between_word [of cur "[]"] by simp

lemma split_runs_tokens:
  "\<forall>c\<in>set cur. \<not> is_sep c \<Longrightarrow>
   filter (\<lambda>p. p \<noteq> []) (split_runs cur s) = runs_between (cur @ s)"
proof (induction cur s rule: split_runs.induct)
  case (1 cur)
  then show ?case by (simp add: runs_between_single)
next
  case (2 cur c cs)
  show ?case
  proof (cases "is_sep c")
    case True
    have "runs_between (takeWhile is_sep cs @ dropWhile is_sep cs) = runs_between (dropWhile is_sep cs)"
      by (rule runs_between_seps) (auto dest: set_takeWhileD)
    then have seps: "runs_between (dropWhile is_sep cs) = runs_between cs"
      by simp
    have "filter (\<lambda>p. p \<noteq> []) (split_runs [] (dropWhile is_sep cs)) = runs_between ([] @ dropWhile is_sep cs)"
      by (rule "2.IH"(1) [OF True]) simp
    then have ih: "filter (\<lambda>p. p \<noteq> []) (split_runs [] (dropWhile is_sep cs)) = runs_between cs"
      using seps by simp
    have sp: "split_runs cur (c # cs) = cur # split_runs [] (dropWhile is_sep cs)"
      using True by simp
    have rb: "runs_between (cur @ c # cs) = (if cur = [] then [] else [cur]) @ runs_between cs"
    proof (cases "cur = []")
      case True
      with \<open>is_sep c\<close> show ?thesis by simp
    next
      case False
      have "runs_between (cur @ c # cs) = cur # runs_between (c # cs)"
        using False "2.prems" \<open>is_sep c\<close> by (intro runs_between_word) auto
      with False \<open>is_sep c\<close> show ?thesis by simp
    qed
    have "filter (\<lambda>p. p \<noteq> []) (split_runs cur (c # cs))
        = filter (\<lambda>p. p \<noteq> []) (cur # split_runs [] (dropWhile is_sep cs))"
      by (simp only: sp)
    also have "\<dots> = (if cur = [] then [] else [cur])
        @ filter (\<lambda>p. p \<noteq> []) (split_runs [] (dropWhile is_sep cs))"
      by (simp del: split_runs.simps)
    also have "\<dots> = (if cur = [] then [] else [cur]) @ runs_between cs"
      by (simp only: ih)
    also have "\<dots> = runs_between (cur @ c # cs)"
      by (simp only: rb)
    finally show ?thesis .
  next
    case False
    have "filter (\<lambda>p. p \<noteq> []) (split_runs (cur @ [c]) cs) = runs_between ((cur @ [c]) @ cs)"
      by (rule "2.IH"(2) [OF False]) (use False "2.prems" in simp)
    moreover have "split_runs cur (c # cs) = split_runs (cur @ [c]) cs"
      using False by simp
    ultimately show ?thesis by simp
  qed
qed

lemma rev_dropWhile_decomp: "u = rev (dropWhile P (rev u)) @ rev (takeWhile P (rev u))"
proof -
  have "rev (takeWhile P (rev u) @ dropWhile P (rev u))
      = rev (dropWhile P (rev u)) @ rev (takeWhile P (rev u))"
    by (rule rev_append)
  then show ?thesis by (simp only: takeWhile_dropWhile_id rev_rev_ident)
qed

lemma trim_decomp:
  "\<exists>a b. s = a @ trim s @ b \<and> (\<forall>c\<in>set a. is_space c) \<and> (\<forall>c\<in>set b. is_space c)"
proof -
  let ?u = "dropWhile is_space s"
  let ?b = "rev (takeWhile is_space (rev ?u))"
  have 1: "s = takeWhile is_space s @ ?u" by simp
  have 2: "?u = trim s @ ?b"
    unfolding trim_def by (rule rev_dropWhile_decomp)
  have "s = takeWhile is_space s @ trim s @ ?b"
    using 1 2 by metis
  moreover have "\<forall>c\<in>set (takeWhile is_space s). is_space c" by (auto dest: set_takeWhileD)
  moreover have "\<forall>c\<in>set ?b. is_space c"
    by (auto dest: set_takeWhileD)
  ultimately show ?thesis by blast
qed

lemma runs_between_seps_end: "\<forall>c\<in>set b. is_sep c \<Longrightarrow> runs_between (s @ b) = runs_between s"
proof (induction "length s" arbitrary: s rule: less_induct)
  case less
  show ?case
  proof (cases "dropWhile is_sep s")
    case Nil
    then have all: "\<forall>c\<in>set s. is_sep c" by (simp add: dropWhile_eq_Nil_conv)
    have "runs_between ((s @ b) @ []) = runs_between []"
      by (rule runs_between_seps) (use all less.prems in auto)
    moreover have "runs_between (s @ []) = runs_between []"
      by (rule runs_between_seps) (use all in auto)
    ultimately show ?thesis by simp
  next
    case (Cons c r)
    define pre where "pre = takeWhile is_sep s"
    define w where "w = takeWhile (\<lambda>x. \<not> is_sep x) (c # r)"
    define rest where "rest = dropWhile (\<lambda>x. \<not> is_sep x) (c # r)"
    have "takeWhile is_sep s @ dropWhile is_sep s = s" by (rule takeWhile_dropWhile_id)
    moreover have "w @ rest = c # r" unfolding w_def rest_def by (rule takeWhile_dropWhile_id)
    ultimately have s: "s = pre @ w @ rest" unfolding pre_def Cons by simp
    have pre: "\<forall>x\<in>set pre. is_sep x" unfolding pre_def by (auto dest: set_takeWhileD)
    have "dropWhile is_sep s \<noteq> [] \<Longrightarrow> \<not> is_sep (hd (dropWhile is_sep s))" by (rule hd_dropWhile)
    then have nc: "\<not> is_sep c" unfolding Cons by simp
    have w: "w \<noteq> []" "\<forall>x\<in>set w. \<not> is_sep x" unfolding w_def using nc by (auto dest: set_takeWhileD)
    have "rest \<noteq> [] \<Longrightarrow> \<not> \<not> is_sep (hd rest)" unfolding rest_def by (rule hd_dropWhile)
    then have rest: "rest = [] \<or> is_sep (hd rest)" by blast
    have len: "length rest < length s" using w(1) by (subst s) simp
    have ih: "runs_between (rest @ b) = runs_between rest"
      using less.hyps [OF len] less.prems by simp
    have restb: "rest @ b = [] \<or> is_sep (hd (rest @ b))"
      using rest less.prems by (cases rest; cases b) auto
    have "runs_between (s @ b) = runs_between (pre @ (w @ (rest @ b)))"
      by (subst s) simp
    also have "\<dots> = runs_between (w @ (rest @ b))"
      using pre by (rule runs_between_seps)
    also have "\<dots> = w # runs_between (rest @ b)"
      using w restb by (rule runs_between_word)
    also have "\<dots> = w # runs_between rest" by (simp only: ih)
    also have "\<dots> = runs_between (w @ rest)"
      using w rest by (rule runs_between_word [symmetric])
    also have "\<dots> = runs_between (pre @ (w @ rest))"
      using pre by (rule runs_between_seps [symmetric])
    also have "\<dots> = runs_between s" by (simp only: s [symmetric])
    finally show ?thesis .
  qed
qed

lemma space_sep: "is_space c \<Longrightarrow> is_sep c"
  by (simp add: is_sep_def)

lemma space_not_bracket: "is_space c \<Longrightarrow> c \<notin> set ''[](){}''"
  by (auto simp: is_space_def)

lemma code_tokens:
  "filter (\<lambda>p. p \<noteq> []) (split_seps (strip_brackets (trim str))) = date_tokens str"
proof -
  obtain a b where d: "str = a @ trim str @ b" "\<forall>c\<in>set a. is_space c" "\<forall>c\<in>set b. is_space c"
    using trim_decomp by blast
  have "\<forall>c\<in>set a. c \<notin> set ''[](){}''" "\<forall>c\<in>set b. c \<notin> set ''[](){}''"
    using d(2,3) space_not_bracket by blast+
  then have fa: "strip_brackets a = a" "strip_brackets b = b"
    by (simp_all only: strip_brackets_def filter_id_conv)
  have "strip_brackets str = a @ strip_brackets (trim str) @ b"
    using arg_cong [OF d(1), of strip_brackets] fa by (simp add: strip_brackets_def)
  then have "runs_between (strip_brackets str) = runs_between (strip_brackets (trim str))"
    using runs_between_seps [of a] runs_between_seps_end [of b] d(2,3) space_sep by metis
  then show ?thesis
    using split_runs_tokens [of "[]" "strip_brackets (trim str)"]
    by (simp add: split_seps_def date_tokens_def strip_brackets_def)
qed

lemma runs_between_tokens:
  "t \<in> set (runs_between s) \<Longrightarrow> t \<noteq> [] \<and> (\<forall>c\<in>set t. \<not> is_sep c)"
proof (induction "length s" arbitrary: s rule: less_induct)
  case less
  show ?case
  proof (cases "dropWhile is_sep s")
    case Nil
    have "runs_between s = []" by (subst runs_between.simps) (simp only: Nil list.case)
    with less.prems show ?thesis by simp
  next
    case (Cons c r)
    define w where "w = takeWhile (\<lambda>x. \<not> is_sep x) (c # r)"
    define rest where "rest = dropWhile (\<lambda>x. \<not> is_sep x) (c # r)"
    have rb: "runs_between s = w # runs_between rest"
      unfolding w_def rest_def by (subst runs_between.simps) (simp only: Cons list.case)
    have "dropWhile is_sep s \<noteq> [] \<Longrightarrow> \<not> is_sep (hd (dropWhile is_sep s))" by (rule hd_dropWhile)
    then have nc: "\<not> is_sep c" unfolding Cons by simp
    have w: "w \<noteq> []" "\<forall>x\<in>set w. \<not> is_sep x" unfolding w_def using nc by (auto dest: set_takeWhileD)
    have "length (dropWhile (\<lambda>x. \<not> is_sep x) r) \<le> length r" by (rule length_dropWhile_le)
    then have "length rest < length (c # r)" unfolding rest_def using nc by simp
    moreover have "length (dropWhile is_sep s) \<le> length s" by (rule length_dropWhile_le)
    ultimately have len: "length rest < length s" unfolding Cons by simp
    from less.prems rb have "t = w \<or> t \<in> set (runs_between rest)" by simp
    then show ?thesis using w less.hyps [OF len] by blast
  qed
qed

lemma parseInt_token:
  assumes "t \<noteq> []" "\<forall>c\<in>set t. \<not> is_sep c"
  shows "finite_or_null (parseInt t) = leading_int t"
proof -
  obtain c r where t: "t = c # r" using assms(1) by (cases t) auto
  have c: "\<not> is_space c" "c \<noteq> CHR ''-''"
    using assms(2) t by (auto simp: is_sep_def)
  then have "dropWhile is_space t = t" by (simp add: t)
  then show ?thesis
    using c by (simp add: parseInt_def leading_int_def finite_or_null_def t Let_def)
qed

lemma case_triple:
  "(case (a, b, c) of (Fin y, Fin m, Fin d) \<Rightarrow> Some (y, m, d) | _ \<Rightarrow> None)
   = (case (finite_or_null a, finite_or_null b, finite_or_null c) of
        (Some y, Some m, Some d) \<Rightarrow> Some (y, m, d) | _ \<Rightarrow> None)"
  by (cases a; cases b; cases c) (simp_all add: finite_or_null_def)

text \<open>
  Claim C7, with \<open>parseInt\<close> as lenient as it is, for strings of code units below 256
  whose first three numbers are at most \<open>2^53\<close>: the parser removes the bracket
  characters, splits at white space, commas, slashes and dashes, and needs three tokens;
  each of the first three must start with a decimal digit (after an optional \<open>+\<close>), and
  gives the number its leading digits form, whatever follows them. If one of the three
  does not start so, the value is unparsable; further tokens are ignored. Up to \<open>2^53\<close>
  the number of the digits is the number \<open>parseInt\<close> returns in the source.
\<close>

theorem parse_string_date:
  assumes "\<forall>t\<in>set (take 3 (date_tokens str)). small_token t"
  shows "parseYearMonthDay (Some (StringValue str)) =
     (let tokens = date_tokens str
      in if length tokens \<ge> 3
         then (case (leading_int (tokens ! 0), leading_int (tokens ! 1), leading_int (tokens ! 2)) of
                 (Some y, Some m, Some d) \<Rightarrow> Some (y, m, d)
               | _ \<Rightarrow> None)
         else None)"
proof (cases "length (date_tokens str) \<ge> 3")
  case False
  then show ?thesis by (simp add: code_tokens Let_def)
next
  case True
  have tok: "finite_or_null (parseInt (date_tokens str ! i)) = leading_int (date_tokens str ! i)"
    if "i < 3" for i
  proof -
    have "date_tokens str ! i \<in> set (runs_between (filter (\<lambda>c. c \<notin> set ''[](){}'') str))"
      using that True unfolding date_tokens_def by (intro nth_mem) simp
    from runs_between_tokens [OF this] show ?thesis by (intro parseInt_token) auto
  qed
  have "parseYearMonthDay (Some (StringValue str)) =
      (case (parseInt (date_tokens str ! 0), parseInt (date_tokens str ! 1), parseInt (date_tokens str ! 2)) of
         (Fin y, Fin m, Fin d) \<Rightarrow> Some (y, m, d) | _ \<Rightarrow> None)"
    using True by (simp add: code_tokens Let_def)
  also have "\<dots> = (case (leading_int (date_tokens str ! 0), leading_int (date_tokens str ! 1),
                          leading_int (date_tokens str ! 2)) of
                      (Some y, Some m, Some d) \<Rightarrow> Some (y, m, d) | _ \<Rightarrow> None)"
    unfolding case_triple using tok [of 0] tok [of 1] tok [of 2] by simp
  finally show ?thesis using True by (simp add: Let_def)
qed

theorem parse_string_date_witness:
  "date_tokens ''[2024/02/29]'' = [''2024'', ''02'', ''29''] \<and>
   small_token ''2024'' \<and> small_token ''02'' \<and> small_token ''29'' \<and> small_token ''xx'' \<and>
   small_token ''01'' \<and>
   parseYearMonthDay (Some (StringValue ''[2024/02/29]'')) = Some (2024, 2, 29) \<and>
   parseYearMonthDay (Some (StringValue ''2024-01'')) = None \<and>
   parseYearMonthDay (Some (StringValue ''2024-xx-01'')) = None"
proof -
  have t: "date_tokens ''[2024/02/29]'' = [''2024'', ''02'', ''29'']"
    "date_tokens ''2024-01'' = [''2024'', ''01'']"
    "date_tokens ''2024-xx-01'' = [''2024'', ''xx'', ''01'']"
    by (simp_all add: code_tokens [symmetric] split_seps_def is_sep_def is_space_def
      trim_def strip_brackets_def)
  have s: "small_token ''2024''" "small_token ''02''" "small_token ''29''" "small_token ''xx''"
    "small_token ''01''"
    by (simp_all add: small_token_def leading_int_def is_digit_def digits_value_def)
  show ?thesis
    using parse_string_date [of "''[2024/02/29]''"] parse_string_date [of "''2024-01''"]
      parse_string_date [of "''2024-xx-01''"]
    by (simp add: t s leading_int_def is_digit_def digits_value_def)
qed


text \<open>
  A date with the time of day attached: the third token of \<open>2024-01-05T10:30\<close> is
  \<open>05T10:30\<close>, which is no number, and the value parses all the same, to the 5th.
\<close>

theorem parse_string_lenient_counterexample:
  "date_tokens ''2024-01-05T10:30'' = [''2024'', ''01'', ''05T10:30''] \<and>
   \<not> decimal_numeral ''05T10:30'' \<and>
   parseYearMonthDay (Some (StringValue ''2024-01-05T10:30'')) = Some (2024, 1, 5)"
  by (simp add: code_tokens [symmetric] decimal_numeral_def split_seps_def is_sep_def is_space_def
      trim_def strip_brackets_def parseInt_def is_digit_def digits_value_def)

section \<open>The date range of an item\<close>

lemma to_month_loop_NaN: "to_month_loop j M md NaN = NaN"
proof (induction j M md NaN rule: to_month_loop.induct)
  case (1 j M md)
  then show ?case by (subst to_month_loop.simps) simp
qed

lemma to_month_loop_past_table:
  "1 \<le> j \<Longrightarrow> j \<le> int (length md) + 1 \<Longrightarrow> int (length md) + 1 < M \<Longrightarrow>
   to_month_loop j M md days = NaN"
proof (induction "nat (int (length md) + 1 - j)" arbitrary: j days)
  case 0
  then have j: "j = int (length md) + 1" by simp
  then have "arr_get md (j - 1) = None" by (simp add: arr_get_def)
  with 0 j show ?case
    by (subst to_month_loop.simps) (simp add: to_number_def to_month_loop_NaN)
next
  case (Suc n)
  then have "to_month_loop (j + 1) M md (js_add days (to_number (arr_get md (j - 1)))) = NaN"
    by (intro Suc.hyps(1)) auto
  with Suc.prems show ?case by (subst to_month_loop.simps) simp
qed

lemma toAbsoluteDay_month_past_13: "13 < m \<Longrightarrow> toAbsoluteDay y m d = NaN"
  using to_month_loop_past_table [of 1 "monthTable (isLeap y)" m]
  by (simp add: toAbsoluteDay_def Let_def monthTable_length)

text \<open>
  What the clamp does give: the end day is the start day, or it is the day of a parsed
  end date that is not earlier than the start day; and between days that are numbers,
  \<open>endDay >= startDay\<close>.
\<close>

lemma extractDateRange_end:
  assumes "extractDateRange e startProp endProp cal = Some r"
  shows "endDay r = startDay r \<or>
         (\<exists>end. prop_set endProp \<and> parseYearMonthDay (getValue e (the endProp)) = Some end \<and>
                endDay r = absoluteDayOf cal end \<and> \<not> js_lt (endDay r) (startDay r))"
  using assms
  by (auto simp: extractDateRange_def Let_def split: if_splits option.splits)


lemma extractDateRange_clamped:
  assumes "extractDateRange e startProp endProp cal = Some r"
    and "is_fin (startDay r)" "is_fin (endDay r)"
  shows "js_ge (endDay r) (startDay r)"
proof -
  obtain s t where st: "startDay r = Fin s" "endDay r = Fin t"
    using assms(2,3) by (cases "startDay r"; cases "endDay r") auto
  show ?thesis
    using assms(1) st
    by (auto simp: extractDateRange_def Let_def split: if_splits option.splits)
qed

text \<open>
  Claim C5 fails for a Gregorian month of 14 or more: the record is kept, its days are
  \<open>NaN\<close>, and \<open>endDay >= startDay\<close> is false.
\<close>

theorem extractDateRange_month_14:
  "buildTimelineItems h [dated_entry ''notes/a.md'' ''2024-14-01''] (Some ''note.start'') None None None
     = [\<lparr>entry = dated_entry ''notes/a.md'' ''2024-14-01'',
         range' = \<lparr>startDay = NaN, endDay = NaN\<rparr>, indexValue = None\<rparr>] \<and>
   \<not> js_ge NaN NaN"
proof -
  have p: "parseYearMonthDay (Some (StringValue ''2024-14-01'')) = Some (2024, 14, 1)"
    by (simp add: split_seps_def is_sep_def is_space_def trim_def strip_brackets_def
      parseInt_def is_digit_def digits_value_def)
  have d: "toAbsoluteDay 2024 14 1 = NaN" by (rule toAbsoluteDay_month_past_13) simp
  show ?thesis
    by (simp add: dated_entry_def calendarOf_def prop_set_def extractDateRange_def p
        absoluteDayOf_def d indexOf_def del: parseYearMonthDay.simps)
qed

text \<open>
  Three records with the start dates 0001-01-02, 0001-14-01 and 0001-01-01, as the builder
  makes them into items: days 367, \<open>NaN\<close> and 366.
\<close>

lemma build_dated:
  "buildTimelineItems h [dated_entry ''a.md'' ''0001-01-02'', dated_entry ''b.md'' ''0001-14-01'',
       dated_entry ''c.md'' ''0001-01-01''] (Some ''note.start'') None None None
   = [\<lparr>entry = dated_entry ''a.md'' ''0001-01-02'',
        range' = \<lparr>startDay = Fin 367, endDay = Fin 367\<rparr>, indexValue = None\<rparr>,
      \<lparr>entry = dated_entry ''b.md'' ''0001-14-01'',
        range' = \<lparr>startDay = NaN, endDay = NaN\<rparr>, indexValue = None\<rparr>,
      \<lparr>entry = dated_entry ''c.md'' ''0001-01-01'',
        range' = \<lparr>startDay = Fin 366, endDay = Fin 366\<rparr>, indexValue = None\<rparr>]"
proof -
  have p: "parseYearMonthDay (Some (StringValue ''0001-01-02'')) = Some (1, 1, 2)"
    "parseYearMonthDay (Some (StringValue ''0001-14-01'')) = Some (1, 14, 1)"
    "parseYearMonthDay (Some (StringValue ''0001-01-01'')) = Some (1, 1, 1)"
    by (simp_all add: split_seps_def is_sep_def is_space_def trim_def strip_brackets_def
      parseInt_def is_digit_def digits_value_def)
  have d: "toAbsoluteDay 1 14 1 = NaN" by (rule toAbsoluteDay_month_past_13) simp
  have e: "toAbsoluteDay 1 1 2 = Fin 367" "toAbsoluteDay 1 1 1 = Fin 366"
    by (simp_all add: toAbsoluteDay_def to_year_loop.simps to_month_loop.simps yearLength_def
        isLeap_def signed_modulo_int_def)
  show ?thesis
    by (simp add: dated_entry_def calendarOf_def prop_set_def extractDateRange_def p
        absoluteDayOf_def d e indexOf_def Let_def del: parseYearMonthDay.simps)
qed

text \<open>
  Claim C3 fails on a batch that holds a \<open>NaN\<close> day, which the builder makes from a
  Gregorian month of 14 or more. Against such an item the date comparator returns \<open>NaN\<close>,
  the sort takes that for a tie, and the items on either side of it are never compared:
  no item has an index, and the batch built from the start dates 0001-01-02, 0001-14-01
  and 0001-01-01 comes back in build order, day 367 ahead of day 366.
\<close>

theorem sortByIndexOrDate_month_14:
  "sortByIndexOrDate
     (buildTimelineItems h [dated_entry ''a.md'' ''0001-01-02'', dated_entry ''b.md'' ''0001-14-01'',
        dated_entry ''c.md'' ''0001-01-01''] (Some ''note.start'') None None None)
   = [\<lparr>entry = dated_entry ''a.md'' ''0001-01-02'',
        range' = \<lparr>startDay = Fin 367, endDay = Fin 367\<rparr>, indexValue = None\<rparr>,
      \<lparr>entry = dated_entry ''b.md'' ''0001-14-01'',
        range' = \<lparr>startDay = NaN, endDay = NaN\<rparr>, indexValue = None\<rparr>,
      \<lparr>entry = dated_entry ''c.md'' ''0001-01-01'',
        range' = \<lparr>startDay = Fin 366, endDay = Fin 366\<rparr>, indexValue = None\<rparr>] \<and>
   js_gt (Fin 367) (Fin 366)"
  unfolding build_dated
  by (simp add: sortByIndexOrDate_def js_sort_def cmp_date_def js_or_def js_gt_def)



section \<open>Effects of the operations\<close>

lemma alloc_simps [simp]:
  "fst (alloc h v) = free h"
  "free (snd (alloc h v)) = Suc (free h)"
  "objs (snd (alloc h v)) = (objs h)(free h \<mapsto> v)"
  by (simp_all add: alloc_def)

lemma put_simps [simp]:
  "free (put h a v) = free h"
  "objs (put h a v) = (objs h)(a \<mapsto> v)"
  by (simp_all add: put_def)

lemma store_ok_alloc: "store_ok h \<Longrightarrow> store_ok (snd (alloc h v))"
  by (simp add: store_ok_def)

lemma store_ok_put: "store_ok h \<Longrightarrow> a < free h \<Longrightarrow> store_ok (put h a v)"
  by (auto simp: store_ok_def)

lemma allocated: "store_ok h \<Longrightarrow> objs h a = Some v \<Longrightarrow> a < free h"
  by (metis not_le_imp_less option.distinct(1) store_ok_def)

lemma unchanged_refl: "unchanged h h"
  by (simp add: unchanged_def)

lemma unchanged_trans: "unchanged h1 h2 \<Longrightarrow> unchanged h2 h3 \<Longrightarrow> unchanged h1 h3"
  by (auto simp: unchanged_def)

lemma unchanged_alloc: "unchanged h (snd (alloc h v))"
  by (simp add: unchanged_def)

lemma unchanged_put: "unchanged h0 h \<Longrightarrow> free h0 \<le> a \<Longrightarrow> unchanged h0 (put h a v)"
  by (auto simp: unchanged_def)

lemma unchanged_objs: "store_ok h \<Longrightarrow> unchanged h h' \<Longrightarrow> objs h a = Some v \<Longrightarrow> objs h' a = Some v"
  using allocated by (fastforce simp: unchanged_def)

lemma ref_array_stable:
  "store_ok h \<Longrightarrow> unchanged h h' \<Longrightarrow> ref_array h a = Some rs \<Longrightarrow> ref_array h' a = Some rs"
  by (auto simp: ref_array_def split: option.splits obj.splits dest: unchanged_objs)

lemma item_at_stable:
  "store_ok h \<Longrightarrow> unchanged h h' \<Longrightarrow> item_at h a = Some i \<Longrightarrow> item_at h' a = Some i"
  by (auto simp: item_at_def split: option.splits obj.splits dest: unchanged_objs)

lemma entry_at_stable:
  "store_ok h \<Longrightarrow> unchanged h h' \<Longrightarrow> entry_at h a = Some i \<Longrightarrow> entry_at h' a = Some i"
  by (auto simp: entry_at_def split: option.splits obj.splits dest: unchanged_objs)

lemma string_set_stable:
  "store_ok h \<Longrightarrow> unchanged h h' \<Longrightarrow> string_set h a = Some i \<Longrightarrow> string_set h' a = Some i"
  by (auto simp: string_set_def split: option.splits obj.splits dest: unchanged_objs)

lemma deref_all_Some:
  "deref_all f rs = Some xs \<longleftrightarrow> map f rs = map Some xs"
proof (induction rs arbitrary: xs)
  case Nil
  then show ?case by auto
next
  case (Cons r rs)
  show ?case
  proof (cases "f r")
    case None
    then show ?thesis by (cases xs) auto
  next
    case (Some x)
    then show ?thesis using Cons [of "tl xs"] by (cases xs) auto
  qed
qed

lemma deref_all_length: "deref_all f rs = Some xs \<Longrightarrow> length xs = length rs"
  by (metis deref_all_Some length_map)

lemma deref_all_mono:
  "deref_all f rs = Some xs \<Longrightarrow> (\<And>r x. r \<in> set rs \<Longrightarrow> f r = Some x \<Longrightarrow> g r = Some x) \<Longrightarrow>
   deref_all g rs = Some xs"
proof (induction rs arbitrary: xs)
  case Nil
  then show ?case by simp
next
  case (Cons r rs)
  then show ?case by (auto split: option.splits)
qed

lemma deref_all_pairs:
  "(\<And>r x. (r, x) \<in> set ps \<Longrightarrow> f r = Some x) \<Longrightarrow> deref_all f (map fst ps) = Some (map snd ps)"
  by (simp add: deref_all_Some)

lemma deref_all_zip:
  "deref_all f rs = Some xs \<Longrightarrow> (r, x) \<in> set (zip rs xs) \<Longrightarrow> f r = Some x"
  by (metis deref_all_Some in_set_zip fst_conv snd_conv nth_map length_map)

lemma deref_all_append:
  "deref_all f rs = Some xs \<Longrightarrow> f r = Some x \<Longrightarrow> deref_all f (rs @ [r]) = Some (xs @ [x])"
  by (simp add: deref_all_Some)

lemma items_of_stable:
  assumes "store_ok h" "unchanged h h'" "items_of h a = Some its"
  shows "items_of h' a = Some its"
proof -
  from assms(3) obtain rs where rs: "ref_array h a = Some rs" "deref_all (item_at h) rs = Some its"
    by (auto simp: items_of_def split: option.splits)
  have "deref_all (item_at h') rs = Some its"
    using rs(2) by (rule deref_all_mono) (rule item_at_stable [OF assms(1,2)])
  with ref_array_stable [OF assms(1,2) rs(1)] show ?thesis by (simp add: items_of_def)
qed

lemma entries_of_stable:
  assumes "store_ok h" "unchanged h h'" "entries_of h a = Some es"
  shows "entries_of h' a = Some es"
proof -
  from assms(3) obtain rs where rs: "ref_array h a = Some rs" "deref_all (entry_at h) rs = Some es"
    by (auto simp: entries_of_def split: option.splits)
  have "deref_all (entry_at h') rs = Some es"
    using rs(2) by (rule deref_all_mono) (rule entry_at_stable [OF assms(1,2)])
  with ref_array_stable [OF assms(1,2) rs(1)] show ?thesis by (simp add: entries_of_def)
qed

lemma tracks_of_stable:
  assumes "store_ok h" "unchanged h h'" "tracks_of h a = Some trks"
  shows "tracks_of h' a = Some trks"
proof -
  from assms(3) obtain T ts where T: "objs h a = Some (TracksObj T)" "ref_array h T = Some ts"
      "deref_all (items_of h) ts = Some trks"
    by (auto simp: tracks_of_def split: option.splits obj.splits)
  have "deref_all (items_of h') ts = Some trks"
    using T(3) by (rule deref_all_mono) (rule items_of_stable [OF assms(1,2)])
  then show ?thesis
    using unchanged_objs [OF assms(1,2) T(1)] ref_array_stable [OF assms(1,2) T(2)]
    by (simp add: tracks_of_def)
qed

lemma pure_operationI:
  assumes step: "\<And>h a x. store_ok h \<Longrightarrow> input h a = Some x \<Longrightarrow>
      \<exists>r h'. run h a = Some (r, h') \<and> store_ok h' \<and> unchanged h h' \<and> free h \<le> r \<and> r < free h' \<and>
             output h' r = Some (f x)"
    and in_stable: "\<And>h h' a x. store_ok h \<Longrightarrow> unchanged h h' \<Longrightarrow> input h a = Some x \<Longrightarrow>
      input h' a = Some x"
    and out_stable: "\<And>h h' a y. store_ok h \<Longrightarrow> unchanged h h' \<Longrightarrow> output h a = Some y \<Longrightarrow>
      output h' a = Some y"
  shows "pure_operation run input output f"
  unfolding pure_operation_def
proof (intro allI impI)
  fix h a x
  assume a: "store_ok h \<and> input h a = Some x"
  then obtain r h' where 1: "run h a = Some (r, h')" "store_ok h'" "unchanged h h'"
      "free h \<le> r" "r < free h'" "output h' r = Some (f x)"
    using step by blast
  have in': "input h' a = Some x" using a 1 in_stable by blast
  then obtain r2 h2 where 2: "run h' a = Some (r2, h2)" "unchanged h' h2" "output h2 r2 = Some (f x)"
    using step [OF 1(2)] by blast
  have "output h2 r = Some (f x)" using out_stable [OF 1(2) 2(2) 1(6)] .
  with 1 2 in' show "\<exists>r h'. run h a = Some (r, h') \<and> store_ok h' \<and> unchanged h h' \<and>
      input h' a = Some x \<and> free h \<le> r \<and> r < free h' \<and> output h' r = Some (f x) \<and>
      (\<exists>r2 h2. run h' a = Some (r2, h2) \<and> output h2 r2 = Some (f x) \<and> output h2 r = Some (f x))"
    by blast
qed


lemma js_insert_map:
  "map f (js_insert (\<lambda>a b. cmp (f a) (f b)) x ys) = js_insert cmp (f x) (map f ys)"
  by (induction ys) auto

lemma js_sort_map: "map f (js_sort (\<lambda>a b. cmp (f a) (f b)) xs) = js_sort cmp (map f xs)"
  by (induction xs) (auto simp: js_sort_def js_insert_map)

lemma set_js_sort: "set (js_sort cmp xs) = set xs"
  using mset_js_sort [of cmp xs] by (metis set_mset_mset)

lemma sorted_pairs:
  assumes "deref_all f rs = Some its"
  shows "map snd (js_sort (\<lambda>a b. cmp (snd a) (snd b)) (zip rs its)) = js_sort cmp its"
    and "(\<And>r x. f r = Some x \<Longrightarrow> g r = Some x) \<Longrightarrow>
         deref_all g (map fst (js_sort (\<lambda>a b. cmp (snd a) (snd b)) (zip rs its)))
           = Some (js_sort cmp its)"
proof -
  have len: "length its = length rs" using assms by (rule deref_all_length)
  show 1: "map snd (js_sort (\<lambda>a b. cmp (snd a) (snd b)) (zip rs its)) = js_sort cmp its"
    using len by (simp add: js_sort_map)
  assume g: "\<And>r x. f r = Some x \<Longrightarrow> g r = Some x"
  have "deref_all g (map fst (js_sort (\<lambda>a b. cmp (snd a) (snd b)) (zip rs its)))
      = Some (map snd (js_sort (\<lambda>a b. cmp (snd a) (snd b)) (zip rs its)))"
    by (rule deref_all_pairs) (auto simp: set_js_sort intro: g deref_all_zip [OF assms])
  then show "deref_all g (map fst (js_sort (\<lambda>a b. cmp (snd a) (snd b)) (zip rs its)))
           = Some (js_sort cmp its)"
    by (simp only: 1)
qed

lemma sort_step:
  assumes ok: "store_ok h" and inp: "items_of h a = Some its"
  shows "\<exists>r h'. sortByIndexOrDate_st h a = Some (r, h') \<and> store_ok h' \<and> unchanged h h' \<and>
           free h \<le> r \<and> r < free h' \<and> items_of h' r = Some (sortByIndexOrDate its)"
proof -
  from inp obtain rs where rs: "ref_array h a = Some rs" "deref_all (item_at h) rs = Some its"
    by (auto simp: items_of_def split: option.splits)
  define cmp where "cmp = (if list_ex (\<lambda>i. indexValue i \<noteq> None) its then cmp_index else cmp_date)"
  define ps where "ps = js_sort (\<lambda>a b. cmp (snd a) (snd b)) (zip rs its)"
  define h1 where "h1 = snd (alloc h (RefArray rs))"
  define h2 where "h2 = put h1 (free h) (RefArray (map fst ps))"
  have run: "sortByIndexOrDate_st h a = Some (free h, h2)"
    using rs by (simp add: sortByIndexOrDate_st_def Let_def alloc_def h2_def h1_def ps_def cmp_def)
  have ok1: "store_ok h1" unfolding h1_def using ok by (rule store_ok_alloc)
  have ok2: "store_ok h2" unfolding h2_def using ok1 by (rule store_ok_put) (simp add: h1_def)
  have un: "unchanged h h2"
    unfolding h2_def h1_def by (rule unchanged_put [OF unchanged_alloc]) simp
  have "deref_all (item_at h2) (map fst ps) = Some (js_sort cmp its)"
    unfolding ps_def using rs(2) by (rule sorted_pairs(2)) (rule item_at_stable [OF ok un])
  moreover have "ref_array h2 (free h) = Some (map fst ps)"
    by (simp add: ref_array_def h2_def)
  moreover have "sortByIndexOrDate its = js_sort cmp its"
    by (simp add: sortByIndexOrDate_def cmp_def)
  ultimately have out: "items_of h2 (free h) = Some (sortByIndexOrDate its)"
    by (simp add: items_of_def)
  have "free h < free h2" by (simp add: h2_def h1_def)
  with run ok2 un out show ?thesis by blast
qed

lemma detect_step:
  assumes ok: "store_ok h" and inp: "items_of h a = Some its"
  shows "\<exists>r h'. detectIndexConflicts_st h a = Some (r, h') \<and> store_ok h' \<and> unchanged h h' \<and>
           free h \<le> r \<and> r < free h' \<and> string_set h' r = Some (detectIndexConflicts its)"
proof -
  from inp obtain rs where rs: "ref_array h a = Some rs" "deref_all (item_at h) rs = Some its"
    by (auto simp: items_of_def split: option.splits)
  have len: "length its = length rs" using rs(2) by (rule deref_all_length)
  define h1 where "h1 = snd (alloc h (StringSet {}))"
  have ok1: "store_ok h1" unfolding h1_def using ok by (rule store_ok_alloc)
  have un1: "unchanged h h1" unfolding h1_def by (rule unchanged_alloc)
  show ?thesis
  proof (cases "length rs \<le> 1")
    case True
    then have run: "detectIndexConflicts_st h a = Some (free h, h1)"
      using rs by (simp add: detectIndexConflicts_st_def Let_def alloc_def h1_def)
    have "string_set h1 (free h) = Some (detectIndexConflicts its)"
      using True len by (simp add: string_set_def h1_def detectIndexConflicts_def)
    moreover have "free h < free h1" by (simp add: h1_def)
    ultimately show ?thesis using run ok1 un1 by blast
  next
    case False
    define sorted where "sorted = js_sort (\<lambda>a b. cmp_date (snd a) (snd b)) (zip rs its)"
    define positions where "positions = set_positions (map snd sorted) 0 Map.empty"
    define h2 where "h2 = put (snd (alloc h1 (RefArray rs))) (Suc (free h)) (RefArray (map fst sorted))"
    define h3 where "h3 = put (snd (alloc h2 (PositionMap Map.empty))) (Suc (Suc (free h))) (PositionMap positions)"
    define h4 where "h4 = put h3 (free h) (StringSet (conflict_loop positions its {}))"
    have run: "detectIndexConflicts_st h a = Some (free h, h4)"
      using rs False
      by (simp add: detectIndexConflicts_st_def Let_def alloc_def h1_def h2_def h3_def h4_def
          sorted_def positions_def)
    have f: "free h1 = Suc (free h)" "free h2 = Suc (Suc (free h))" "free h3 = Suc (Suc (Suc (free h)))"
      "free h4 = Suc (Suc (Suc (free h)))"
      by (simp_all add: h1_def h2_def h3_def h4_def)
    have ok2: "store_ok h2"
      unfolding h2_def by (intro store_ok_put store_ok_alloc ok1) (simp add: f)
    have ok3: "store_ok h3"
      unfolding h3_def by (intro store_ok_put store_ok_alloc ok2) (simp add: f)
    have ok4: "store_ok h4"
      unfolding h4_def by (intro store_ok_put ok3) (simp add: f)
    have "unchanged h1 h2"
      unfolding h2_def by (rule unchanged_put [OF unchanged_alloc]) (simp add: f)
    moreover have "unchanged h2 h3"
      unfolding h3_def by (rule unchanged_put [OF unchanged_alloc]) (simp add: f)
    ultimately have "unchanged h h3" using un1 unchanged_trans by blast
    then have un: "unchanged h h4" unfolding h4_def by (rule unchanged_put) simp
    have "map snd sorted = js_sort cmp_date its"
      unfolding sorted_def using rs(2) by (rule sorted_pairs(1))
    then have "conflict_loop positions its {} = detectIndexConflicts its"
      using False len by (simp add: detectIndexConflicts_def positions_def)
    then have "string_set h4 (free h) = Some (detectIndexConflicts its)"
      by (simp add: string_set_def h4_def)
    with run ok4 un f show ?thesis by auto
  qed
qed


lemma item_at_alloc_other:
  "store_ok h \<Longrightarrow> item_at h r = Some x \<Longrightarrow> item_at (snd (alloc h v)) r = Some x"
  by (rule item_at_stable [OF _ unchanged_alloc])

lemma build_st_step:
  assumes "store_ok h" "base \<le> items" "\<forall>r\<in>set rs. r < base"
    and "deref_all (entry_at h) rs = Some es"
    and "ref_array h items = Some out" "deref_all (item_at h) out = Some acc"
  shows "\<exists>h'. build_st host h rs sp ep ip cp items = Some h' \<and> store_ok h' \<and> free h \<le> free h' \<and>
           (\<forall>a<base. objs h' a = objs h a) \<and>
           items_of h' items = Some (acc @ buildTimelineItems host es sp ep ip cp)"
  using assms
proof (induction rs arbitrary: h es out acc)
  case Nil
  then show ?case by (simp add: items_of_def)
next
  case (Cons r rs)
  from Cons.prems(4) obtain e es' where e: "entry_at h r = Some e" "es = e # es'"
      "deref_all (entry_at h) rs = Some es'"
    by (auto split: option.splits)
  have items_alloc: "items < free h"
    using Cons.prems(1,5) by (auto simp: ref_array_def split: option.splits dest: allocated)
  show ?case
  proof (cases "extractDateRange e sp ep (calendarOf e cp)")
    case None
    from Cons.IH [OF Cons.prems(1,2) _ e(3) Cons.prems(5,6)] Cons.prems(3)
    show ?thesis using e None by (simp add: Let_def)
  next
    case (Some rng)
    define item where "item = \<lparr>entry = e, range' = rng, indexValue = indexOf host e ip\<rparr>"
    define h1 where "h1 = snd (alloc h (ItemObj item))"
    define h2 where "h2 = put h1 items (RefArray (out @ [free h]))"
    have ok2: "store_ok h2"
      unfolding h2_def h1_def
      by (intro store_ok_put store_ok_alloc Cons.prems(1)) (use items_alloc in simp)
    have un: "unchanged h h1" unfolding h1_def by (rule unchanged_alloc)
    have objs2: "objs h2 = (objs h)(free h \<mapsto> ItemObj item, items \<mapsto> RefArray (out @ [free h]))"
      by (simp add: h2_def h1_def)
    have keep: "objs h2 a = objs h a" if "a < base" for a
      using that Cons.prems(2) items_alloc by (simp add: objs2)
    have ents: "deref_all (entry_at h2) rs = Some es'"
      using e(3)
    proof (rule deref_all_mono)
      fix r' x assume "r' \<in> set rs" "entry_at h r' = Some x"
      then show "entry_at h2 r' = Some x"
        using keep [of r'] Cons.prems(3) by (simp add: entry_at_def)
    qed
    have arr: "ref_array h2 items = Some (out @ [free h])"
      by (simp add: ref_array_def objs2)
    have old: "deref_all (item_at h2) out = Some acc"
      using Cons.prems(6)
    proof (rule deref_all_mono)
      fix r' x assume a: "r' \<in> set out" "item_at h r' = Some x"
      then have "r' < free h" "r' \<noteq> items"
        using Cons.prems(1,5)
        by (auto simp: item_at_def ref_array_def split: option.splits obj.splits dest: allocated)
      with a(2) show "item_at h2 r' = Some x" by (simp add: item_at_def objs2)
    qed
    have new: "item_at h2 (free h) = Some item"
      using items_alloc by (simp add: item_at_def objs2)
    have its: "deref_all (item_at h2) (out @ [free h]) = Some (acc @ [item])"
      using old new by (rule deref_all_append)
    from Cons.IH [OF ok2 Cons.prems(2) _ ents arr its] Cons.prems(3)
    obtain h' where h': "build_st host h2 rs sp ep ip cp items = Some h'" "store_ok h'"
        "free h2 \<le> free h'" "\<forall>a<base. objs h' a = objs h2 a"
        "items_of h' items = Some ((acc @ [item]) @ buildTimelineItems host es' sp ep ip cp)"
      by auto
    have run: "build_st host h (r # rs) sp ep ip cp items = Some h'"
      using e(1) Some Cons.prems(5) h'(1)
      by (simp add: Let_def alloc_def h2_def h1_def item_def)
    have "free h \<le> free h'" using h'(3) by (simp add: h2_def h1_def)
    moreover have "\<forall>a<base. objs h' a = objs h a" using h'(4) keep by simp
    moreover have "items_of h' items = Some (acc @ buildTimelineItems host es sp ep ip cp)"
      using h'(5) Some by (simp add: e(2) Let_def item_def)
    ultimately show ?thesis using run h'(2) by blast
  qed
qed

lemma deref_all_member:
  "deref_all f rs = Some xs \<Longrightarrow> r \<in> set rs \<Longrightarrow> \<exists>x. f r = Some x"
  by (induction rs arbitrary: xs) (auto split: option.splits)

lemma build_step:
  assumes ok: "store_ok h" and inp: "entries_of h a = Some es"
  shows "\<exists>r h'. buildTimelineItems_st host sp ep ip cp h a = Some (r, h') \<and> store_ok h' \<and>
           unchanged h h' \<and> free h \<le> r \<and> r < free h' \<and>
           items_of h' r = Some (buildTimelineItems host es sp ep ip cp)"
proof -
  from inp obtain rs where rs: "ref_array h a = Some rs" "deref_all (entry_at h) rs = Some es"
    by (auto simp: entries_of_def split: option.splits)
  define h1 where "h1 = snd (alloc h (RefArray []))"
  have ok1: "store_ok h1" unfolding h1_def using ok by (rule store_ok_alloc)
  have un1: "unchanged h h1" unfolding h1_def by (rule unchanged_alloc)
  have below: "\<forall>r\<in>set rs. r < free h"
  proof
    fix r assume "r \<in> set rs"
    then obtain e where "entry_at h r = Some e"
      using deref_all_member [OF rs(2)] by blast
    then show "r < free h"
      using ok by (auto simp: entry_at_def split: option.splits obj.splits dest: allocated)
  qed
  have ents: "deref_all (entry_at h1) rs = Some es"
    using rs(2) by (rule deref_all_mono) (rule entry_at_stable [OF ok un1])
  have arr: "ref_array h1 (free h) = Some []" by (simp add: ref_array_def h1_def)
  from build_st_step [OF ok1 order_refl below ents arr, of "[]" host sp ep ip cp]
  obtain h' where h': "build_st host h1 rs sp ep ip cp (free h) = Some h'" "store_ok h'"
      "free h1 \<le> free h'" "\<forall>a<free h. objs h' a = objs h1 a"
      "items_of h' (free h) = Some (buildTimelineItems host es sp ep ip cp)"
    by (auto simp del: buildTimelineItems.simps)
  have run: "buildTimelineItems_st host sp ep ip cp h a = Some (free h, h')"
    using rs(1) h'(1) by (simp add: buildTimelineItems_st_def Let_def alloc_def h1_def)
  have "unchanged h h'"
    using h'(3,4) by (simp add: unchanged_def h1_def)
  moreover have "free h < free h'" using h'(3) by (simp add: h1_def)
  ultimately show ?thesis using run h'(2,5) by auto
qed


declare place_st.simps [simp del]

lemma ref_array_allocated: "store_ok h \<Longrightarrow> ref_array h a = Some rs \<Longrightarrow> a < free h"
  by (auto simp: ref_array_def split: option.splits dest: allocated)

lemma num_array_allocated: "store_ok h \<Longrightarrow> num_array h a = Some rs \<Longrightarrow> a < free h"
  by (auto simp: num_array_def split: option.splits dest: allocated)

lemma item_at_allocated: "store_ok h \<Longrightarrow> item_at h a = Some i \<Longrightarrow> a < free h"
  by (auto simp: item_at_def split: option.splits dest: allocated)

lemma track_rel_frame:
  assumes "track_rel base h t trk" "objs h' t = objs h t" "\<forall>a<base. objs h' a = objs h a"
  shows "track_rel base h' t trk"
proof -
  from assms(1) obtain refs where r: "base \<le> t" "ref_array h t = Some refs" "\<forall>x\<in>set refs. x < base"
      "deref_all (item_at h) refs = Some trk"
    by (auto simp: track_rel_def)
  have "deref_all (item_at h') refs = Some trk"
    using r(4) by (rule deref_all_mono) (use r(3) assms(3) in \<open>simp add: item_at_def\<close>)
  moreover have "ref_array h' t = Some refs" using r(2) assms(2) by (simp add: ref_array_def)
  ultimately show ?thesis using r(1,3) by (auto simp: track_rel_def)
qed

lemma track_rel_push:
  assumes "track_rel base h t trk" "ref_array h t = Some refs"
    and "objs h' t = Some (RefArray (refs @ [r]))" "\<forall>a<base. objs h' a = objs h a"
    and "r < base" "item_at h r = Some item"
  shows "track_rel base h' t (trk @ [item])"
proof -
  from assms(1,2) have r: "base \<le> t" "\<forall>x\<in>set refs. x < base"
      "deref_all (item_at h) refs = Some trk"
    by (auto simp: track_rel_def)
  have old: "deref_all (item_at h') refs = Some trk"
    using r(3) by (rule deref_all_mono) (use r(2) assms(4) in \<open>simp add: item_at_def\<close>)
  have "item_at h' r = Some item" using assms(4,5,6) by (simp add: item_at_def)
  with old have "deref_all (item_at h') (refs @ [r]) = Some (trk @ [item])"
    by (rule deref_all_append)
  moreover have "ref_array h' t = Some (refs @ [r])" using assms(3) by (simp add: ref_array_def)
  ultimately show ?thesis using r(1,2) assms(5) by (auto simp: track_rel_def)
qed

lemma place_st_step:
  assumes "store_ok h" "tracks_rel base h T L trks lastEnd" "r < base" "item_at h r = Some item"
  shows "case place item t trks lastEnd of
           None \<Rightarrow> place_st h r item t T L = Some (False, h)
         | Some (trks', lastEnd') \<Rightarrow>
             (\<exists>h'. place_st h r item t T L = Some (True, h') \<and> store_ok h' \<and> free h' = free h \<and>
                   (\<forall>a<base. objs h' a = objs h a) \<and> tracks_rel base h' T L trks' lastEnd')"
  using assms
proof (induction item t trks lastEnd rule: place.induct)
  case (1 item t trks lastEnd)
  from "1.prems"(2) obtain ts where ts: "base \<le> T" "base \<le> L" "T \<noteq> L" "num_array h L = Some lastEnd"
      "ref_array h T = Some ts" "distinct ts" "T \<notin> set ts" "L \<notin> set ts"
      "list_all2 (track_rel base h) ts trks"
    by (auto simp: tracks_rel_def)
  have len: "length ts = length trks" using ts(9) by (rule list_all2_lengthD)
  show ?case
  proof (cases "t < length trks")
    case False
    then show ?thesis
      using ts len by (subst place.simps, subst place_st.simps) simp
  next
    case True
    show ?thesis
    proof (cases "case arr_get lastEnd (int t) of None \<Rightarrow> False
                  | Some e \<Rightarrow> js_gt (startDay (range' item)) e")
      case False
      have p: "place item t trks lastEnd = place item (t + 1) trks lastEnd"
        using True False by (subst place.simps) simp
      have q: "place_st h r item t T L = place_st h r item (t + 1) T L"
        using True False ts len by (subst place_st.simps) simp
      show ?thesis
        unfolding p q using "1.IH" [OF True False "1.prems"] .
    next
      case cond: True
      have tt: "t < length ts" using True len by simp
      have rel: "track_rel base h (ts ! t) (trks ! t)"
        using ts(9) tt by (simp add: list_all2_conv_all_nth)
      then obtain refs where refs: "base \<le> ts ! t" "ref_array h (ts ! t) = Some refs"
        by (auto simp: track_rel_def)
      define h' where "h' = put (put h (ts ! t) (RefArray (refs @ [r]))) L
                              (NumArray (lastEnd[t := endDay (range' item)]))"
      have p: "place item t trks lastEnd
          = Some (trks[t := trks ! t @ [item]], lastEnd[t := endDay (range' item)])"
        using True cond by (subst place.simps) simp
      have q: "place_st h r item t T L = Some (True, h')"
        using tt cond ts refs by (subst place_st.simps) (simp add: h'_def)
      have tin: "ts ! t \<in> set ts" using tt by simp
      have neq: "ts ! t \<noteq> T" "ts ! t \<noteq> L" using tin ts(7,8) by auto
      have objs': "objs h' = (objs h)(ts ! t \<mapsto> RefArray (refs @ [r]),
                                    L \<mapsto> NumArray (lastEnd[t := endDay (range' item)]))"
        by (simp add: h'_def)
      have ok': "store_ok h'"
        unfolding h'_def
        by (intro store_ok_put "1.prems"(1))
           (use ref_array_allocated [OF "1.prems"(1) refs(2)]
                num_array_allocated [OF "1.prems"(1) ts(4)] in simp_all)
      have frame: "\<forall>a<base. objs h' a = objs h a"
        using refs(1) ts(2) by (simp add: objs')
      have all: "list_all2 (track_rel base h') ts (trks[t := trks ! t @ [item]])"
        unfolding list_all2_conv_all_nth
      proof (intro conjI allI impI)
        show "length ts = length (trks[t := trks ! t @ [item]])" using len by simp
      next
        fix k assume k: "k < length ts"
        have relk: "track_rel base h (ts ! k) (trks ! k)"
          using ts(9) k by (simp add: list_all2_conv_all_nth)
        show "track_rel base h' (ts ! k) (trks[t := trks ! t @ [item]] ! k)"
        proof (cases "k = t")
          case True
          have "objs h' (ts ! t) = Some (RefArray (refs @ [r]))"
            using neq by (simp add: objs')
          with rel refs(2) have "track_rel base h' (ts ! t) (trks ! t @ [item])"
            using frame "1.prems"(3,4) by (rule track_rel_push)
          then show ?thesis using True tt len by simp
        next
          case False
          then have "ts ! k \<noteq> ts ! t" using ts(6) k tt by (simp add: nth_eq_iff_index_eq)
          moreover have "ts ! k \<noteq> L" using ts(8) k by (metis nth_mem)
          ultimately have "objs h' (ts ! k) = objs h (ts ! k)" by (simp add: objs')
          with relk have "track_rel base h' (ts ! k) (trks ! k)" using frame by (rule track_rel_frame)
          then show ?thesis using False by simp
        qed
      qed
      have "tracks_rel base h' T L (trks[t := trks ! t @ [item]]) (lastEnd[t := endDay (range' item)])"
        unfolding tracks_rel_def
        using ts(1,2,3,5,6,7,8) all neq
        by (auto simp: num_array_def ref_array_def objs')
      then show ?thesis
        unfolding p q using ok' frame by (simp add: h'_def)
    qed
  qed
qed


lemma tracks_rel_new_track:
  assumes ok: "store_ok h" and base: "base \<le> free h"
    and rel: "tracks_rel base h T L trks lastEnd"
    and r: "r < base" "item_at h r = Some item"
    and ts: "ref_array h T = Some ts"
  defines "h' \<equiv> put (put (snd (alloc h (RefArray [r]))) T (RefArray (ts @ [free h])))
                    L (NumArray (lastEnd @ [endDay (range' item)]))"
  shows "store_ok h' \<and> free h \<le> free h' \<and> (\<forall>a<base. objs h' a = objs h a) \<and>
         tracks_rel base h' T L (trks @ [[item]]) (lastEnd @ [endDay (range' item)])"
proof -
  from rel ts have t: "base \<le> T" "base \<le> L" "T \<noteq> L" "num_array h L = Some lastEnd"
      "distinct ts" "T \<notin> set ts" "L \<notin> set ts" "list_all2 (track_rel base h) ts trks"
    by (auto simp: tracks_rel_def)
  have TL: "T < free h" "L < free h"
    using ref_array_allocated [OF ok ts] num_array_allocated [OF ok t(4)] by simp_all
  have objs': "objs h' = (objs h)(free h \<mapsto> RefArray [r], T \<mapsto> RefArray (ts @ [free h]),
                                L \<mapsto> NumArray (lastEnd @ [endDay (range' item)]))"
    by (simp add: h'_def)
  have ok': "store_ok h'"
    unfolding h'_def by (intro store_ok_put store_ok_alloc ok) (use TL in simp_all)
  have frame: "\<forall>a<base. objs h' a = objs h a"
    using t(1,2) base by (simp add: objs')
  have below: "\<forall>x\<in>set ts. x < free h"
  proof
    fix x assume "x \<in> set ts"
    then obtain k where k: "k < length ts" "ts ! k = x" by (auto simp: in_set_conv_nth)
    then have "track_rel base h x (trks ! k)"
      using t(8) by (auto simp: list_all2_conv_all_nth)
    then show "x < free h"
      using ok by (auto simp: track_rel_def dest: ref_array_allocated)
  qed
  have fresh: "free h \<notin> set ts" using below by auto
  have old: "list_all2 (track_rel base h') ts trks"
    unfolding list_all2_conv_all_nth
  proof (intro conjI allI impI)
    show "length ts = length trks" using t(8) by (rule list_all2_lengthD)
  next
    fix k assume k: "k < length ts"
    then have x: "track_rel base h (ts ! k) (trks ! k)"
      using t(8) by (simp add: list_all2_conv_all_nth)
    have "ts ! k \<in> set ts" using k by simp
    then have "ts ! k \<noteq> T" "ts ! k \<noteq> L" "ts ! k \<noteq> free h"
      using t(6,7) fresh by auto
    then have "objs h' (ts ! k) = objs h (ts ! k)" by (simp add: objs')
    with x show "track_rel base h' (ts ! k) (trks ! k)" using frame by (rule track_rel_frame)
  qed
  have "item_at h' r = Some item" using r frame by (simp add: item_at_def)
  then have new: "track_rel base h' (free h) [item]"
    using base r(1) TL by (simp add: track_rel_def ref_array_def objs')
  have all: "list_all2 (track_rel base h') (ts @ [free h]) (trks @ [[item]])"
    using old new by (intro list_all2_appendI) simp_all
  have "tracks_rel base h' T L (trks @ [[item]]) (lastEnd @ [endDay (range' item)])"
    unfolding tracks_rel_def
    using t(1,2,3,5,6,7) TL fresh all
    by (auto simp: num_array_def ref_array_def objs')
  moreover have "free h \<le> free h'" by (simp add: h'_def)
  ultimately show ?thesis using ok' frame by blast
qed

lemma assign_st_step:
  assumes "store_ok h" "base \<le> free h" "tracks_rel base h T L trks lastEnd"
    and "\<forall>r\<in>set rs. r < base" "deref_all (item_at h) rs = Some items"
  shows "\<exists>h'. assign_st h rs T L = Some h' \<and> store_ok h' \<and> free h \<le> free h' \<and>
           (\<forall>a<base. objs h' a = objs h a) \<and>
           tracks_rel base h' T L (fst (assign_loop items trks lastEnd))
                                   (snd (assign_loop items trks lastEnd))"
  using assms
proof (induction rs arbitrary: h items trks lastEnd)
  case Nil
  then show ?case by simp
next
  case (Cons r rs)
  from Cons.prems(5) obtain item items' where i: "item_at h r = Some item" "items = item # items'"
      "deref_all (item_at h) rs = Some items'"
    by (auto split: option.splits)
  have rb: "r < base" and rsb: "\<forall>x\<in>set rs. x < base" using Cons.prems(4) by simp_all
  note step = place_st_step [OF Cons.prems(1,3) rb i(1), of 0]
  show ?case
  proof (cases "place item 0 trks lastEnd")
    case (Some p)
    obtain trks' lastEnd' where p: "p = (trks', lastEnd')" by (cases p)
    from step Some p obtain h1 where h1: "place_st h r item 0 T L = Some (True, h1)" "store_ok h1"
        "free h1 = free h" "\<forall>a<base. objs h1 a = objs h a" "tracks_rel base h1 T L trks' lastEnd'"
      by auto
    have its: "deref_all (item_at h1) rs = Some items'"
      using i(3) by (rule deref_all_mono) (use rsb h1(4) in \<open>simp add: item_at_def\<close>)
    have b1: "base \<le> free h1" using Cons.prems(2) h1(3) by simp
    from Cons.IH [OF h1(2) b1 h1(5) rsb its]
    obtain h' where h': "assign_st h1 rs T L = Some h'" "store_ok h'" "free h1 \<le> free h'"
        "\<forall>a<base. objs h' a = objs h1 a"
        "tracks_rel base h' T L (fst (assign_loop items' trks' lastEnd'))
                                 (snd (assign_loop items' trks' lastEnd'))"
      by blast
    have "assign_st h (r # rs) T L = Some h'" using i(1) h1(1) h'(1) by simp
    moreover have "assign_loop items trks lastEnd = assign_loop items' trks' lastEnd'"
      using Some p by (simp add: i(2))
    ultimately show ?thesis using h'(2-5) h1(3,4) by auto
  next
    case None
    with step have pl: "place_st h r item 0 T L = Some (False, h)" by simp
    from Cons.prems(3) obtain ts where ts: "ref_array h T = Some ts" "num_array h L = Some lastEnd"
      by (auto simp: tracks_rel_def)
    define h4 where "h4 = put (put (snd (alloc h (RefArray [r]))) T (RefArray (ts @ [free h])))
                    L (NumArray (lastEnd @ [endDay (range' item)]))"
    from tracks_rel_new_track [OF Cons.prems(1,2,3) rb i(1) ts(1)]
    have h4: "store_ok h4" "free h \<le> free h4" "\<forall>a<base. objs h4 a = objs h a"
        "tracks_rel base h4 T L (trks @ [[item]]) (lastEnd @ [endDay (range' item)])"
      unfolding h4_def by blast+
    have its: "deref_all (item_at h4) rs = Some items'"
      using i(3) by (rule deref_all_mono) (use rsb h4(3) in \<open>simp add: item_at_def\<close>)
    have b4: "base \<le> free h4" using Cons.prems(2) h4(2) by simp
    from Cons.IH [OF h4(1) b4 h4(4) rsb its]
    obtain h' where h': "assign_st h4 rs T L = Some h'" "store_ok h'" "free h4 \<le> free h'"
        "\<forall>a<base. objs h' a = objs h4 a"
        "tracks_rel base h' T L
           (fst (assign_loop items' (trks @ [[item]]) (lastEnd @ [endDay (range' item)])))
           (snd (assign_loop items' (trks @ [[item]]) (lastEnd @ [endDay (range' item)])))"
      by blast
    have "assign_st h (r # rs) T L = Some h'"
      using i(1) pl ts h'(1) by (simp add: alloc_def h4_def)
    moreover have "assign_loop items trks lastEnd
        = assign_loop items' (trks @ [[item]]) (lastEnd @ [endDay (range' item)])"
      using None by (simp add: i(2))
    ultimately show ?thesis using h'(2-5) h4(2,3) by auto
  qed
qed

lemma deref_all_list_all2:
  "list_all2 (\<lambda>r x. f r = Some x) rs xs \<Longrightarrow> deref_all f rs = Some xs"
  by (simp add: deref_all_Some list_all2_conv_all_nth list_eq_iff_nth_eq)

lemma tracks_step:
  assumes ok: "store_ok h" and inp: "items_of h a = Some its"
  shows "\<exists>r h'. assignTracks_st h a = Some (r, h') \<and> store_ok h' \<and> unchanged h h' \<and>
           free h \<le> r \<and> r < free h' \<and> tracks_of h' r = Some (tracks (assignTracks its))"
proof -
  from inp obtain rs where rs: "ref_array h a = Some rs" "deref_all (item_at h) rs = Some its"
    by (auto simp: items_of_def split: option.splits)
  define T where "T = free h"
  define L where "L = Suc (free h)"
  define h2 where "h2 = snd (alloc (snd (alloc h (RefArray []))) (NumArray []))"
  have ok2: "store_ok h2" unfolding h2_def by (intro store_ok_alloc ok)
  have un2: "unchanged h h2"
    unfolding h2_def using unchanged_alloc unchanged_trans by blast
  have below: "\<forall>r\<in>set rs. r < free h"
  proof
    fix r assume "r \<in> set rs"
    with deref_all_member [OF rs(2)] obtain i where "item_at h r = Some i" by blast
    then show "r < free h" using ok by (rule item_at_allocated [rotated])
  qed
  have its2: "deref_all (item_at h2) rs = Some its"
    using rs(2) by (rule deref_all_mono) (rule item_at_stable [OF ok un2])
  have rel: "tracks_rel (free h) h2 T L [] []"
    by (simp add: tracks_rel_def T_def L_def h2_def ref_array_def num_array_def)
  have b2: "free h \<le> free h2" by (simp add: h2_def)
  from assign_st_step [OF ok2 b2 rel below its2]
  obtain h3 where h3: "assign_st h2 rs T L = Some h3" "store_ok h3" "free h2 \<le> free h3"
      "\<forall>a<free h. objs h3 a = objs h2 a"
      "tracks_rel (free h) h3 T L (fst (assign_loop its [] [])) (snd (assign_loop its [] []))"
    by blast
  define h4 where "h4 = snd (alloc h3 (TracksObj T))"
  have run: "assignTracks_st h a = Some (free h3, h4)"
    using rs(1) h3(1)
    by (simp add: assignTracks_st_def Let_def alloc_def h2_def T_def L_def h4_def)
  have ok4: "store_ok h4" unfolding h4_def by (intro store_ok_alloc h3(2))
  have un3: "unchanged h h3"
    using h3(3,4) un2 b2 by (auto simp: unchanged_def)
  have un4: "unchanged h h4"
    using un3 unchanged_alloc [of h3] unfolding h4_def by (rule unchanged_trans)
  from h3(5) obtain ts where ts: "ref_array h3 T = Some ts"
      "list_all2 (track_rel (free h) h3) ts (fst (assign_loop its [] []))"
    by (auto simp: tracks_rel_def)
  have "list_all2 (\<lambda>t trk. items_of h3 t = Some trk) ts (fst (assign_loop its [] []))"
    using ts(2) by (rule list_all2_mono) (auto simp: track_rel_def items_of_def)
  then have d3: "deref_all (items_of h3) ts = Some (fst (assign_loop its [] []))"
    by (rule deref_all_list_all2)
  have un34: "unchanged h3 h4" unfolding h4_def by (rule unchanged_alloc)
  have "deref_all (items_of h4) ts = Some (fst (assign_loop its [] []))"
    using d3 by (rule deref_all_mono) (rule items_of_stable [OF h3(2) un34])
  moreover have "ref_array h4 T = Some ts"
    using ts(1) by (rule ref_array_stable [OF h3(2) un34])
  moreover have "objs h4 (free h3) = Some (TracksObj T)" by (simp add: h4_def)
  ultimately have out: "tracks_of h4 (free h3) = Some (tracks (assignTracks its))"
    by (simp add: tracks_of_def assignTracks_def)
  have "free h \<le> free h3" "free h3 < free h4" using b2 h3(3) by (simp_all add: h4_def)
  with run ok4 un4 out show ?thesis by blast
qed


text \<open>
  Claim C8: each of \<open>buildTimelineItems\<close>, \<open>sortByIndexOrDate\<close>, \<open>assignTracks\<close> and
  \<open>detectIndexConflicts\<close> returns on every well-typed input, leaves its input sequence
  and every other object of the store unchanged, returns a newly made result, and
  computes a function of its input: run twice on the same input it gives the same
  result. The items themselves are shared between the input and the result, not copied.
\<close>

theorem pipeline_side_effect_free:
  "pure_operation (buildTimelineItems_st host startProp endProp indexProp calendarProp)
     entries_of items_of
     (\<lambda>entries. buildTimelineItems host entries startProp endProp indexProp calendarProp) \<and>
   pure_operation sortByIndexOrDate_st items_of items_of sortByIndexOrDate \<and>
   pure_operation assignTracks_st items_of tracks_of (\<lambda>items. tracks (assignTracks items)) \<and>
   pure_operation detectIndexConflicts_st items_of string_set detectIndexConflicts"
proof (intro conjI)
  show "pure_operation (buildTimelineItems_st host startProp endProp indexProp calendarProp)
     entries_of items_of
     (\<lambda>entries. buildTimelineItems host entries startProp endProp indexProp calendarProp)"
    by (rule pure_operationI) (blast intro: build_step entries_of_stable items_of_stable)+
  show "pure_operation sortByIndexOrDate_st items_of items_of sortByIndexOrDate"
    by (rule pure_operationI) (blast intro: sort_step items_of_stable)+
  show "pure_operation assignTracks_st items_of tracks_of (\<lambda>items. tracks (assignTracks items))"
    by (rule pure_operationI) (blast intro: tracks_step items_of_stable tracks_of_stable)+
  show "pure_operation detectIndexConflicts_st items_of string_set detectIndexConflicts"
    by (rule pure_operationI) (blast intro: detect_step items_of_stable string_set_stable)+
qed

theorem pipeline_side_effect_free_witness:
  "store_ok example_store \<and>
   items_of example_store 2
     = Some [item_of ''n2'' (Fin 3) (Fin 10) None, item_of ''n1'' (Fin 1) (Fin 5) None] \<and>
   (\<exists>r h'. sortByIndexOrDate_st example_store 2 = Some (r, h') \<and> unchanged example_store h' \<and>
      items_of h' 2 = Some [item_of ''n2'' (Fin 3) (Fin 10) None, item_of ''n1'' (Fin 1) (Fin 5) None] \<and>
      free example_store \<le> r \<and>
      items_of h' r = Some (sortByIndexOrDate
        [item_of ''n2'' (Fin 3) (Fin 10) None, item_of ''n1'' (Fin 1) (Fin 5) None]))"
proof -
  have ok: "store_ok example_store"
    by (auto simp: store_ok_def example_store_def)
  have inp: "items_of example_store 2
     = Some [item_of ''n2'' (Fin 3) (Fin 10) None, item_of ''n1'' (Fin 1) (Fin 5) None]"
    by (simp add: items_of_def ref_array_def item_at_def example_store_def)
  have "pure_operation sortByIndexOrDate_st items_of items_of sortByIndexOrDate"
    using pipeline_side_effect_free by (rule conjunct2 [THEN conjunct1])
  with ok inp show ?thesis
    unfolding pure_operation_def by blast
qed


end
